theory Spec2Isabelle
  imports Main "HOL-Library.AList" "HOL-Library.Char_ord" "HOL-Library.List_Lexorder"
    "HOL-Library.Product_Lexorder"
begin

section \<open>The enforcement runtime: pkg/cmd/eddie/rt/enforcer.go\<close>

subsection \<open>Targets, reports and results\<close>

text \<open>
  \<^verbatim>\<open>ext.Kind\<close>: the five kinds that \<^verbatim>\<open>findContracts\<close> assigns and the
  \<^verbatim>\<open>switch tgt.kind\<close> of \<^verbatim>\<open>enforce\<close> handles.
\<close>

datatype Kind = KindFunction | KindInterface | KindInterfaceMethod | KindMethod | KindType

text \<open>
  The fields that \<^verbatim>\<open>findContracts\<close> fills in a \<^verbatim>\<open>target\<close>.  A
  \<^verbatim>\<open>types.Object\<close> is a number, \<^verbatim>\<open>enclosing\<close> may be nil, a
  \<^verbatim>\<open>token.Pos\<close> is a number.  The file set is the same for all targets and is left out.
\<close>

record target =
  config :: string
  contract :: string
  enclosing :: "nat option"
  kind :: Kind
  object :: nat
  pos :: nat

text \<open>
  The code handles targets through pointers (\<^verbatim>\<open>*target\<close>) and
  \<^verbatim>\<open>expand\<close> keys its \<^verbatim>\<open>seen\<close> map by them: a pointer is the
  address of the object together with the object it points to (targets are not written to
  between scanning and the end of expansion).
\<close>

type_synonym target_ptr = "nat \<times> target"

text \<open>
  What travels over \<^verbatim>\<open>e.reports\<close>: \<^verbatim>\<open>Execute\<close> reads
  \<^verbatim>\<open>r.pos\<close>, \<^verbatim>\<open>r.target.contract\<close> and \<^verbatim>\<open>r.info\<close>.
\<close>

record report =
  rpos :: nat
  rtarget :: target
  info :: string

text \<open>\<^verbatim>\<open>type Results map[token.Position][]*Result\<close>, a \<^verbatim>\<open>Result\<close> being its message.\<close>

type_synonym Results = "(nat \<times> string list) list"

text \<open>The errors that the engine returns.\<close>

datatype error =
    NoPackages
  | RecursiveContract nat string
  | CannotFindContract nat string
  | ConfigDecodeError nat
  | LoadError string
  | ReportsGenerated

subsection \<open>Collecting the reports (the goroutine of Execute)\<close>

text \<open>\<^verbatim>\<open>strings.Split(r.info, "\n")\<close>.\<close>

primrec Split_newline :: "string \<Rightarrow> string list" where
  "Split_newline [] = [[]]"
| "Split_newline (c # cs) =
     (if c = CHR 0x0A then [] # Split_newline cs
      else (case Split_newline cs of [] \<Rightarrow> [[c]] | l # ls \<Rightarrow> (c # l) # ls))"

definition render :: "report \<Rightarrow> string" where
  "render r = ''violates contract '' @ contract (rtarget r)
     @ concat (map (\<lambda>chunk. CHR 0x0A # ''>> '' @ chunk) (Split_newline (info r)))"

definition add_result :: "Results \<Rightarrow> report \<Rightarrow> Results" where
  "add_result ret r =
     AList.update (rpos r)
       ((case map_of ret (rpos r) of None \<Rightarrow> [] | Some ms \<Rightarrow> ms) @ [render r]) ret"

definition collect :: "report list \<Rightarrow> Results" where
  "collect rs = foldl add_result [] rs"

subsection \<open>enforce and enforceAll\<close>

text \<open>
  The SSA program answers two questions of \<^verbatim>\<open>enforce\<close>: the
  \<^verbatim>\<open>*ssa.Type\<close> member of a type object and the \<^verbatim>\<open>*ssa.Function\<close> of a
  function object.  Both are parameters; a member is known by its position.
\<close>

record ssaProgram =
  TypeMember :: "nat \<Rightarrow> nat"
  FuncValue :: "nat \<Rightarrow> nat"

text \<open>
  \<^verbatim>\<open>impl.declaration\<close> as the \<^verbatim>\<open>switch tgt.kind\<close> sets it.  An
  interface method without an enclosing object makes \<^verbatim>\<open>tgt.enclosing.Type()\<close> panic.
\<close>

definition impl_declaration :: "ssaProgram \<Rightarrow> target \<Rightarrow> string + nat" where
  "impl_declaration pgm tgt =
     (case kind tgt of
        KindInterface \<Rightarrow> Inr (TypeMember pgm (object tgt))
      | KindInterfaceMethod \<Rightarrow>
          (case enclosing tgt of
             None \<Rightarrow> Inl ''invalid memory address or nil pointer dereference''
           | Some en \<Rightarrow> Inr (TypeMember pgm en))
      | KindFunction \<Rightarrow> Inr (FuncValue pgm (object tgt))
      | KindMethod \<Rightarrow> Inr (FuncValue pgm (object tgt))
      | KindType \<Rightarrow> Inr (TypeMember pgm (object tgt)))"

text \<open>
  Modelled from the spec: \<^verbatim>\<open>contextImpl.Reportf\<close> is not in the sources at hand.
  The spec has \<^verbatim>\<open>Report(located, message)\<close> send a report about the located object,
  and \<^verbatim>\<open>Execute\<close> reads the fields \<^verbatim>\<open>pos\<close>, \<^verbatim>\<open>target\<close> and
  \<^verbatim>\<open>info\<close> of what arrives.  The format \<^verbatim>\<open>"%s: %v"\<close> of the call in
  \<^verbatim>\<open>enforce\<close> is written out.
\<close>

definition Reportf :: "target \<Rightarrow> nat \<Rightarrow> string \<Rightarrow> string \<Rightarrow> report" where
  "Reportf tgt decl c err = \<lparr>rpos = decl, rtarget = tgt, info = c @ '': '' @ err\<rparr>"

text \<open>
  A contract implementation is a parameter: given the target and its declaration,
  \<^verbatim>\<open>tgt.impl.Enforce(impl)\<close> sends some reports and returns nil or an error text.
\<close>

type_synonym contract_impl = "target \<Rightarrow> nat \<Rightarrow> report list \<times> string option"

text \<open>
  \<^verbatim>\<open>enforce\<close> returns the reports sent and either a panic or the returned error.
\<close>

definition enforce :: "ssaProgram \<Rightarrow> contract_impl \<Rightarrow> target \<Rightarrow> report list \<times> (string + error option)" where
  "enforce pgm impl tgt =
     (case impl_declaration pgm tgt of
        Inl p \<Rightarrow> ([], Inl p)
      | Inr decl \<Rightarrow>
          (case impl tgt decl of
             (sent, Some err) \<Rightarrow> (sent @ [Reportf tgt decl (contract tgt) err], Inr None)
           | (sent, None) \<Rightarrow> (sent, Inr None)))"

text \<open>
  The loop of one worker of \<^verbatim>\<open>enforceAll\<close>: it takes targets from the channel until
  the channel is closed, and returns the first error of \<^verbatim>\<open>enforce\<close>.  The pool is
  taken as one worker that receives the targets in the order of \<^verbatim>\<open>e.targets\<close>, and
  the context is never cancelled from outside.
\<close>

fun worker :: "ssaProgram \<Rightarrow> contract_impl \<Rightarrow> target list \<Rightarrow> report list \<times> (string + error option)" where
  "worker pgm impl [] = ([], Inr None)"
| "worker pgm impl (tgt # ch) =
     (case enforce pgm impl tgt of
        (sent, Inl p) \<Rightarrow> (sent, Inl p)
      | (sent, Inr (Some err)) \<Rightarrow> (sent, Inr (Some err))
      | (sent, Inr None) \<Rightarrow>
          (case worker pgm impl ch of (later, r) \<Rightarrow> (sent @ later, r)))"

definition enforceAll :: "ssaProgram \<Rightarrow> contract_impl \<Rightarrow> target list \<Rightarrow> report list \<times> (string + error option)" where
  "enforceAll pgm impl tgts = worker pgm impl tgts"

subsection \<open>Alias expansion: expand\<close>

text \<open>
  \<^verbatim>\<open>type targetAliases map[string]targets\<close>.  A value of the map is a slice: the
  elements it shows and the capacity of its array.  The capacity matters, because
  \<^verbatim>\<open>expand\<close> takes \<^verbatim>\<open>nonTerm := e.aliases[base.contract]\<close>, cuts it with
  \<^verbatim>\<open>nonTerm = nonTerm[:0]\<close> and appends to it: as long as the appended elements fit
  the capacity, \<^verbatim>\<open>append\<close> writes them into the array that the map entry still uses.
\<close>

type_synonym targetAliases = "(string \<times> target_ptr list \<times> nat) list"

text \<open>Writing \<open>new\<close> into an array from index \<open>m\<close> on, seen through a slice of fixed length.\<close>

definition overwrite :: "'a list \<Rightarrow> nat \<Rightarrow> 'a list \<Rightarrow> 'a list" where
  "overwrite arr m new = take (length arr) (take m arr @ new @ drop (m + length new) arr)"

text \<open>
  The variables of the loop of \<^verbatim>\<open>expand\<close>: the alias table, \<^verbatim>\<open>nonTerm\<close>,
  whether \<^verbatim>\<open>nonTerm\<close> still uses the array of \<^verbatim>\<open>e.aliases[base.contract]\<close>,
  \<^verbatim>\<open>term\<close> and \<^verbatim>\<open>seen\<close> (the addresses of the targets in it).
\<close>

record expansion =
  aliases :: targetAliases
  nonTerm :: "target_ptr list"
  shares :: bool
  terminal :: "target list"
  seen :: "nat set"

text \<open>\<^verbatim>\<open>nonTerm = append(nonTerm, moreExpansions...)\<close> for a base of contract \<open>k0\<close>
  whose alias slice has capacity \<open>c\<close>.\<close>

definition append_nonTerm :: "string \<Rightarrow> nat \<Rightarrow> target_ptr list \<Rightarrow> expansion \<Rightarrow> expansion" where
  "append_nonTerm k0 c moreExpansions st =
     (if shares st \<and> length (nonTerm st) + length moreExpansions \<le> c
      then st\<lparr>nonTerm := nonTerm st @ moreExpansions,
              aliases := (case map_of (aliases st) k0 of
                            None \<Rightarrow> aliases st
                          | Some (arr, c') \<Rightarrow>
                              AList.update k0 (overwrite arr (length (nonTerm st)) moreExpansions, c')
                                (aliases st))\<rparr>
      else st\<lparr>nonTerm := nonTerm st @ moreExpansions, shares := False\<rparr>)"

text \<open>The inner loop \<^verbatim>\<open>for _, alias := range work\<close>.\<close>

fun expand_work :: "target \<Rightarrow> nat \<Rightarrow> target_ptr list \<Rightarrow> expansion \<Rightarrow> error + expansion" where
  "expand_work base c [] st = Inr st"
| "expand_work base c (alias # work) st =
     (if fst alias \<in> seen st
      then Inl (RecursiveContract (pos base) (contract (snd alias)))
      else
        (let st1 = st\<lparr>seen := insert (fst alias) (seen st)\<rparr> in
         case map_of (aliases st1) (contract (snd alias)) of
           Some (moreExpansions, c') \<Rightarrow>
             expand_work base c work (append_nonTerm (contract base) c moreExpansions st1)
         | None \<Rightarrow>
             expand_work base c work
               (st1\<lparr>terminal := terminal st1 @ [base\<lparr>contract := contract (snd alias),
                                              config := config (snd alias)\<rparr>]\<rparr>)))"

text \<open>The targets that the table and \<^verbatim>\<open>nonTerm\<close> hold, and their addresses.\<close>

definition table_cells :: "targetAliases \<Rightarrow> target_ptr set" where
  "table_cells al = (\<Union>(k, arr, c) \<in> set al. set arr)"

definition cells :: "expansion \<Rightarrow> target_ptr set" where
  "cells st = table_cells (aliases st) \<union> set (nonTerm st)"

definition universe :: "expansion \<Rightarrow> nat set" where
  "universe st = fst ` cells st"

lemma finite_universe: "finite (universe st)"
  by (auto simp: universe_def cells_def table_cells_def)

lemma set_overwrite: "set (overwrite arr m new) \<subseteq> set arr \<union> set new"
proof -
  have "set (overwrite arr m new) \<subseteq> set (take m arr @ new @ drop (m + length new) arr)"
    unfolding overwrite_def by (rule set_take_subset)
  also have "\<dots> \<subseteq> set arr \<union> set new"
    using set_take_subset [of m arr] set_drop_subset [of "m + length new" arr] by auto
  finally show ?thesis .
qed

lemma length_overwrite [simp]: "length (overwrite arr m new) = length arr"
  by (simp add: overwrite_def)

lemma table_cells_update:
  "table_cells (AList.update k (arr, c) al) \<subseteq> table_cells al \<union> set arr"
  by (induction al) (auto simp: table_cells_def)

lemma table_cells_lookup:
  "map_of al k = Some (arr, c) \<Longrightarrow> set arr \<subseteq> table_cells al"
  by (force simp: table_cells_def dest: map_of_SomeD)

lemma cells_append_nonTerm:
  assumes "map_of (aliases st) k = Some (moreExpansions, c')"
  shows "cells (append_nonTerm k0 c moreExpansions st) \<subseteq> cells st"
proof -
  have m: "set moreExpansions \<subseteq> table_cells (aliases st)"
    using assms by (rule table_cells_lookup)
  have a: "set (nonTerm st @ moreExpansions) \<subseteq> cells st"
    using m by (auto simp: cells_def)
  show ?thesis
  proof (cases "shares st \<and> length (nonTerm st) + length moreExpansions \<le> c")
    case False
    then show ?thesis using a by (auto simp: append_nonTerm_def cells_def)
  next
    case True
    show ?thesis
    proof (cases "map_of (aliases st) k0")
      case None
      then show ?thesis using True a by (auto simp: append_nonTerm_def cells_def)
    next
      case (Some e)
      obtain arr c0 where e: "e = (arr, c0)" by (cases e)
      have "set arr \<subseteq> table_cells (aliases st)"
        using Some e table_cells_lookup [of "aliases st" k0 arr c0] by simp
      moreover have "set (overwrite arr (length (nonTerm st)) moreExpansions)
          \<subseteq> set arr \<union> set moreExpansions"
        by (rule set_overwrite)
      ultimately have "table_cells (AList.update k0 (overwrite arr (length (nonTerm st)) moreExpansions, c0) (aliases st))
          \<subseteq> table_cells (aliases st)"
        using m table_cells_update [of k0 "overwrite arr (length (nonTerm st)) moreExpansions" c0 "aliases st"]
        by blast
      then show ?thesis using True a Some e by (auto simp: append_nonTerm_def cells_def)
    qed
  qed
qed

lemma seen_append_nonTerm [simp]: "seen (append_nonTerm k0 c m st) = seen st"
  by (simp add: append_nonTerm_def)

lemma nonTerm_append_nonTerm [simp]:
  "nonTerm (append_nonTerm k0 c m st) = nonTerm st @ m"
  by (simp add: append_nonTerm_def)

text \<open>A round that ends without error has met only new, pairwise different addresses.\<close>

lemma expand_work_Inr:
  "expand_work base c work st = Inr st' \<Longrightarrow>
     seen st' = seen st \<union> fst ` set work \<and> distinct (map fst work)
     \<and> fst ` set work \<inter> seen st = {} \<and> cells st' \<subseteq> cells st"
proof (induction work arbitrary: st)
  case Nil
  then show ?case by simp
next
  case (Cons a work)
  from Cons.prems have ns: "fst a \<notin> seen st" by (auto split: if_splits)
  let ?st1 = "st\<lparr>seen := insert (fst a) (seen st)\<rparr>"
  show ?case
  proof (cases "map_of (aliases st) (contract (snd a))")
    case None
    let ?st2 = "?st1\<lparr>terminal := terminal ?st1 @ [base\<lparr>contract := contract (snd a),
                                              config := config (snd a)\<rparr>]\<rparr>"
    from Cons.prems ns None have "expand_work base c work ?st2 = Inr st'"
      by (simp add: Let_def)
    from Cons.IH [OF this] show ?thesis using ns by (auto simp: cells_def)
  next
    case (Some e)
    obtain m c' where e: "e = (m, c')" by (cases e)
    let ?st2 = "append_nonTerm (contract base) c m ?st1"
    from Cons.prems ns Some e have "expand_work base c work ?st2 = Inr st'"
      by (simp add: Let_def)
    from Cons.IH [OF this]
    have ih: "seen st' = seen ?st2 \<union> fst ` set work" "distinct (map fst work)"
      "fst ` set work \<inter> seen ?st2 = {}" "cells st' \<subseteq> cells ?st2" by auto
    have "cells ?st2 \<subseteq> cells ?st1"
      using Some e by (intro cells_append_nonTerm [where k = "contract (snd a)" and c' = c']) simp
    moreover have "cells ?st1 = cells st" by (simp add: cells_def)
    ultimately show ?thesis using ih ns by auto
  qed
qed

text \<open>
  The outer loop \<^verbatim>\<open>for len(nonTerm) > 0\<close>: \<^verbatim>\<open>work\<close> is a copy of
  \<^verbatim>\<open>nonTerm\<close>, and \<^verbatim>\<open>nonTerm[:0]\<close> keeps the array.  Every round that does not
  fail adds at least one address of the table to \<^verbatim>\<open>seen\<close>, so the loop ends.
\<close>

function expand_loop :: "target \<Rightarrow> nat \<Rightarrow> expansion \<Rightarrow> error + expansion" where
  "expand_loop base c st =
     (if nonTerm st = [] then Inr st
      else (case expand_work base c (nonTerm st) (st\<lparr>nonTerm := []\<rparr>) of
              Inl err \<Rightarrow> Inl err
            | Inr st' \<Rightarrow> expand_loop base c st'))"
  by pat_completeness auto
termination
proof (relation "measure (\<lambda>(base, c, st). card (universe st - seen st))")
  show "wf (measure (\<lambda>(base, c, st). card (universe st - seen st)))" by simp
next
  fix base :: target and c :: nat and st st' :: expansion
  assume ne: "nonTerm st \<noteq> []"
    and w: "expand_work base c (nonTerm st) (st\<lparr>nonTerm := []\<rparr>) = Inr st'"
  from expand_work_Inr [OF w]
  have s: "seen st' = seen st \<union> fst ` set (nonTerm st)"
    and d: "fst ` set (nonTerm st) \<inter> seen st = {}"
    and u: "cells st' \<subseteq> cells (st\<lparr>nonTerm := []\<rparr>)" by auto
  have u': "universe st' \<subseteq> universe st" using u by (auto simp: universe_def cells_def)
  obtain a where a: "a \<in> fst ` set (nonTerm st)" using ne by (cases "nonTerm st") auto
  have "a \<in> universe st - seen st" using a d by (auto simp: universe_def cells_def)
  moreover have "a \<notin> universe st' - seen st'" using a s by auto
  moreover have "universe st' - seen st' \<subseteq> universe st - seen st" using u' s by auto
  ultimately have "universe st' - seen st' \<subset> universe st - seen st" by blast
  then have "card (universe st' - seen st') < card (universe st - seen st)"
    by (intro psubset_card_mono) (auto simp: finite_universe)
  then show "((base, c, st'), (base, c, st)) \<in> measure (\<lambda>(base, c, st). card (universe st - seen st))"
    by simp
qed

declare expand_loop.simps [simp del]

text \<open>
  Modelled from the spec: the order of \<^verbatim>\<open>targets\<close> (its \<^verbatim>\<open>Less\<close>) is not in the
  sources at hand.  The spec has targets totally ordered by (position, contract name).
  \<^verbatim>\<open>sort.Sort\<close> may put targets of equal rank in either order; the model keeps theirs.
\<close>

definition sort_targets :: "target list \<Rightarrow> target list" where
  "sort_targets ts = sort_key (\<lambda>t. (pos t, contract t)) ts"

definition sort_target_ptrs :: "target_ptr list \<Rightarrow> target_ptr list" where
  "sort_target_ptrs ts = sort_key (\<lambda>t. (pos (snd t), contract (snd t))) ts"

text \<open>
  \<^verbatim>\<open>expand\<close> returns the error, or the terminal targets and the alias table as the
  appends have left it.  After an error the table is not read again.
\<close>

definition expand :: "targetAliases \<Rightarrow> target_ptr \<Rightarrow> error + target list \<times> targetAliases" where
  "expand al base =
     (case map_of al (contract (snd base)) of
        None \<Rightarrow> Inr ([snd base], al)
      | Some (nonTerm0, c) \<Rightarrow>
          (case expand_loop (snd base) c
                  \<lparr>aliases = al, nonTerm = nonTerm0, shares = True, terminal = [],
                   seen = {fst base}\<rparr> of
             Inl err \<Rightarrow> Inl err
           | Inr st \<Rightarrow> Inr (sort_targets (terminal st), aliases st)))"

text \<open>
  The aliases that a target names, a path through the alias table, and whether a path of
  \<open>n\<close> steps starts at a target.
\<close>

definition succs :: "targetAliases \<Rightarrow> target \<Rightarrow> target_ptr list" where
  "succs al t = (case map_of al (contract t) of None \<Rightarrow> [] | Some (arr, c) \<Rightarrow> arr)"

fun alias_path :: "targetAliases \<Rightarrow> target \<Rightarrow> target_ptr list \<Rightarrow> bool" where
  "alias_path al t [] = True"
| "alias_path al t (a # as) = (a \<in> set (succs al t) \<and> alias_path al (snd a) as)"

fun alias_chain :: "targetAliases \<Rightarrow> nat \<Rightarrow> target \<Rightarrow> bool" where
  "alias_chain al 0 t = True"
| "alias_chain al (Suc n) t = (\<exists>a \<in> set (succs al t). alias_chain al n (snd a))"

subsection \<open>expandAll\<close>

text \<open>The first loop of \<^verbatim>\<open>expandAll\<close>; the alias table goes from one call to the next.\<close>

fun expand_targets :: "targetAliases \<Rightarrow> target_ptr list \<Rightarrow> error + target list \<times> targetAliases" where
  "expand_targets al [] = Inr ([], al)"
| "expand_targets al (tgt # tgts) =
     (case expand al tgt of
        Inl err \<Rightarrow> Inl err
      | Inr (expansion, al') \<Rightarrow>
          (case expand_targets al' tgts of
             Inl err \<Rightarrow> Inl err
           | Inr (rest, al'') \<Rightarrow> Inr (expansion @ rest, al'')))"

text \<open>
  The second loop: \<open>Contracts\<close> holds the names that have a provider, and \<open>decodes\<close>
  says whether the JSON decoder accepts the configuration of a target for its contract.
\<close>

fun bind_contracts :: "string list \<Rightarrow> (target \<Rightarrow> bool) \<Rightarrow> target list \<Rightarrow> error option" where
  "bind_contracts Contracts decodes [] = None"
| "bind_contracts Contracts decodes (tgt # tgts) =
     (if contract tgt \<notin> set Contracts then Some (CannotFindContract (pos tgt) (contract tgt))
      else if config tgt \<noteq> [] \<and> \<not> decodes tgt then Some (ConfigDecodeError (pos tgt))
      else bind_contracts Contracts decodes tgts)"

definition expandAll ::
  "string list \<Rightarrow> (target \<Rightarrow> bool) \<Rightarrow> targetAliases \<Rightarrow> target_ptr list
     \<Rightarrow> error + target list \<times> targetAliases" where
  "expandAll Contracts decodes al tgts =
     (case expand_targets al tgts of
        Inl err \<Rightarrow> Inl err
      | Inr (expanded, al') \<Rightarrow>
          (case bind_contracts Contracts decodes expanded of
             Some err \<Rightarrow> Inl err
           | None \<Rightarrow> Inr (expanded, al')))"

subsection \<open>findContracts: the contract closure\<close>

text \<open>
  A comment with its position and the matches of \<^verbatim>\<open>commentSyntax\<close> in its text:
  \<^verbatim>\<open>match[1]\<close> and \<^verbatim>\<open>match[2]\<close>.
\<close>

record comment =
  cpos :: nat
  matches :: "(string \<times> string) list"

text \<open>\<^verbatim>\<open>strings.TrimSpace\<close> on ASCII text.\<close>

definition isSpace :: "char \<Rightarrow> bool" where
  "isSpace ch \<longleftrightarrow> ch \<in> set [CHR '' '', CHR 0x09, CHR 0x0A, CHR 0x0B, CHR 0x0C, CHR 0x0D]"

definition TrimSpace :: "string \<Rightarrow> string" where
  "TrimSpace s = rev (dropWhile isSpace (rev (dropWhile isSpace s)))"

text \<open>
  What the goroutines share under \<^verbatim>\<open>mu\<close>, and the address of the next
  \<^verbatim>\<open>&target{...}\<close>.
\<close>

record scan =
  mu_aliases :: targetAliases
  mu_targets :: "target_ptr list"
  next_target :: nat

text \<open>
  \<^verbatim>\<open>append(s, x)\<close> of one element: a full array is replaced by a larger one; the
  runtime doubles the capacity of a small slice.
\<close>

definition append1 :: "'a list \<times> nat \<Rightarrow> 'a \<Rightarrow> 'a list \<times> nat" where
  "append1 s x =
     (case s of (arr, c) \<Rightarrow>
        (arr @ [x], if length arr < c then c else if c = 0 then 1 else 2 * c))"

text \<open>
  The body of the innermost loop of \<^verbatim>\<open>contract\<close>.  \<open>alias_name\<close> is the name of the
  named type of the object when its underlying type is the contract interface.
\<close>

definition add_match ::
  "string option \<Rightarrow> nat \<Rightarrow> nat option \<Rightarrow> Kind \<Rightarrow> nat \<Rightarrow> scan \<Rightarrow> string \<times> string \<Rightarrow> scan" where
  "add_match alias_name obj encl k p mu m =
     (let tgt = (next_target mu,
                 \<lparr>config = TrimSpace (snd m), contract = fst m, enclosing = encl, kind = k,
                  object = obj, pos = p\<rparr>);
          mu1 = mu\<lparr>next_target := Suc (next_target mu)\<rparr>
      in case alias_name of
           Some name \<Rightarrow>
             mu1\<lparr>mu_aliases :=
                   AList.update name
                     (append1 (case map_of (mu_aliases mu1) name of None \<Rightarrow> ([], 0) | Some s \<Rightarrow> s) tgt)
                     (mu_aliases mu1)\<rparr>
         | None \<Rightarrow> mu1\<lparr>mu_targets := mu_targets mu1 @ [tgt]\<rparr>)"

text \<open>One call of \<^verbatim>\<open>contract(pkg, comments, object, enclosing, kind)\<close>.\<close>

record annotated =
  a_comments :: "comment list list"
  a_alias_name :: "string option"
  a_object :: nat
  a_enclosing :: "nat option"
  a_kind :: Kind

definition contract_closure :: "scan \<Rightarrow> annotated \<Rightarrow> scan" where
  "contract_closure mu d =
     foldl (\<lambda>mu group.
        foldl (\<lambda>mu cm.
           foldl (add_match (a_alias_name d) (a_object d) (a_enclosing d) (a_kind d) (cpos cm))
             mu (matches cm))
          mu group)
       mu (a_comments d)"

text \<open>
  \<^verbatim>\<open>findContracts\<close>, given the calls of \<^verbatim>\<open>contract\<close> that the walk over the
  files makes, in the order in which they take the lock; the lists are sorted at the end.
\<close>

definition findContracts :: "annotated list \<Rightarrow> targetAliases \<times> target_ptr list" where
  "findContracts ds =
     (let mu = foldl contract_closure \<lparr>mu_aliases = [], mu_targets = [], next_target = 0\<rparr> ds
      in (map (\<lambda>(name, arr, c). (name, sort_target_ptrs arr, c)) (mu_aliases mu),
          sort_target_ptrs (mu_targets mu)))"

subsection \<open>Execute\<close>

text \<open>
  \<^verbatim>\<open>Execute\<close> from the loaded packages on: it returns the results and the error, or
  panics.
\<close>

definition Execute ::
  "string list \<Rightarrow> annotated list \<Rightarrow> string list \<Rightarrow> (target \<Rightarrow> bool) \<Rightarrow> ssaProgram
     \<Rightarrow> contract_impl \<Rightarrow> string + Results \<times> error option" where
  "Execute Packages ds Contracts decodes pgm impl =
     (if length Packages = 0 then Inr ([], Some NoPackages)
      else
        (case findContracts ds of (al, tgts) \<Rightarrow>
           (case expandAll Contracts decodes al tgts of
              Inl err \<Rightarrow> Inr ([], Some err)
            | Inr (expanded, al') \<Rightarrow>
                (case enforceAll pgm impl expanded of
                   (sent, Inl p) \<Rightarrow> Inl p
                 | (sent, Inr err) \<Rightarrow> Inr (collect sent, err)))))"

subsection \<open>Main\<close>

text \<open>
  The \<^verbatim>\<open>RunE\<close> of the \<^verbatim>\<open>enforce\<close> command, from the return of
  \<^verbatim>\<open>e.Execute\<close> on: it prints one line per result and returns the error.
\<close>

definition RunE :: "bool \<Rightarrow> Results \<times> error option \<Rightarrow> string list \<times> error option" where
  "RunE SetExitStatus ex =
     (case ex of (results, err) \<Rightarrow>
        (concat (map (\<lambda>(p, slice). map (\<lambda>msg. msg) slice) results),
         if err = None \<and> SetExitStatus then Some ReportsGenerated else err))"

text \<open>The end of \<^verbatim>\<open>Main\<close>: the argument of \<^verbatim>\<open>os.Exit\<close>.\<close>

definition Main_exit :: "bool \<Rightarrow> Results \<times> error option \<Rightarrow> nat" where
  "Main_exit SetExitStatus ex =
     (case snd (RunE SetExitStatus ex) of None \<Rightarrow> 0 | Some err \<Rightarrow> 1)"

text \<open>The number of reports in a result map.\<close>

definition report_count :: "Results \<Rightarrow> nat" where
  "report_count results = sum_list (map (\<lambda>(p, slice). length slice) results)"

section \<open>The return-type analysis: pkg/cmd/retlint\<close>

subsection \<open>Types and SSA values\<close>

text \<open>
  A \<^verbatim>\<open>types.Type\<close> as far as \<^verbatim>\<open>isAllowed\<close> looks at it: a pointer, a named type
  (known by its qualified name), a tuple, or any other type.
\<close>

datatype ty = Pointer ty | Named string | Tuple "ty list" | Basic string

text \<open>The operators of an \<^verbatim>\<open>ssa.UnOp\<close>.\<close>

datatype token = ARROW | MUL | NOT | SUB | XOR

text \<open>
  An \<^verbatim>\<open>ssa.Value\<close> as \<^verbatim>\<open>decide\<close> looks at it.  A value is an object: the first
  argument of every constructor is its identity, by which the \<^verbatim>\<open>seen\<close> map knows it.
  An operand that is used in several places, or that lies on a cycle through a phi, occurs
  with the same identity again; \<^verbatim>\<open>decide\<close> returns at once when it meets it again.
  The second argument is the type of the value.  \<^verbatim>\<open>Call\<close> carries
  \<^verbatim>\<open>Call.StaticCallee()\<close> (a function, or nil), \<^verbatim>\<open>Const\<close> carries
  \<^verbatim>\<open>IsNil()\<close>, \<^verbatim>\<open>TypeAssert\<close> carries \<^verbatim>\<open>AssertedType\<close>, the others their
  operands; \<open>OtherValue\<close> is a value of any other shape.
\<close>

datatype val =
    Call nat ty "nat option"
  | Const nat ty bool
  | Extract nat ty val
  | MakeInterface nat ty val
  | Phi nat ty "val list"
  | TypeAssert nat ty ty
  | UnOp nat ty token val
  | OtherValue nat ty

text \<open>\<^verbatim>\<open>Type()\<close> of a value.\<close>

fun Type :: "val \<Rightarrow> ty" where
  "Type (Call i t callee) = t"
| "Type (Const i t isNil) = t"
| "Type (Extract i t tuple) = t"
| "Type (MakeInterface i t x) = t"
| "Type (Phi i t edges) = t"
| "Type (TypeAssert i t asserted) = t"
| "Type (UnOp i t op x) = t"
| "Type (OtherValue i t) = t"

datatype instr = Return "val list" | OtherInstr

text \<open>
  An \<^verbatim>\<open>ssa.Function\<close>: its name, the package it belongs to, the result types of its
  signature and its blocks.  A \<^verbatim>\<open>*ssa.Function\<close> is an index into the table of the
  functions of the program; an index outside the table is a function without results
  and without blocks.
\<close>

record ssa_function =
  f_name :: string
  f_pkg :: nat
  f_results :: "ty list"
  f_blocks :: "instr list list"

definition external :: ssa_function where
  "external = \<lparr>f_name = [], f_pkg = 0, f_results = [], f_blocks = []\<rparr>"

definition function_at :: "ssa_function list \<Rightarrow> nat \<Rightarrow> ssa_function" where
  "function_at pgm f = (if f < length pgm then pgm ! f else external)"

subsection \<open>The state of the analysis\<close>

text \<open>
  Modelled from the spec: the type \<^verbatim>\<open>funcStat\<close>, its states and the shared
  \<^verbatim>\<open>clean\<close> object are not in the sources at hand.  The spec gives a FuncStat the
  fields \<open>fn\<close>, \<open>return_sites\<close>, \<open>target_indices\<close>, \<open>state\<close> (Unknown, Analyzing, Clean
  or Dirty), \<open>why\<close> and \<open>dependents\<close>, and has irrelevant functions permanently marked
  Clean; the code names the fields \<^verbatim>\<open>fn\<close>, \<^verbatim>\<open>returns\<close>, \<^verbatim>\<open>targetIndexes\<close>,
  \<^verbatim>\<open>state\<close>, \<^verbatim>\<open>why\<close> and \<^verbatim>\<open>dirties\<close>.  A new \<^verbatim>\<open>funcStat\<close> is
  \<^verbatim>\<open>stateUnknown\<close>, since \<^verbatim>\<open>stat\<close> sets no state and \<^verbatim>\<open>analyze\<close> only works
  on that state.
\<close>

datatype state = stateUnknown | stateAnalyzing | stateClean | stateDirty

text \<open>
  The texts of the reasons: \<^verbatim>\<open>"calls"\<close>, \<^verbatim>\<open>"callee not static"\<close>,
  \<^verbatim>\<open>"constant of type %q"\<close>, \<^verbatim>\<open>"assertion to %q"\<close> and
  \<^verbatim>\<open>"result of disallowed type %q"\<close>.
\<close>

datatype reason =
    Calls
  | CalleeNotStatic
  | ConstantOfType ty
  | AssertionTo ty
  | ResultOfDisallowedType ty

record DirtyReason =
  Reason :: reason
  Value :: nat

text \<open>
  \<^verbatim>\<open>dirties\<close> is a map from the dependent \<^verbatim>\<open>*funcStat\<close> to the call; \<^verbatim>\<open>why\<close>
  may be nil.  A \<^verbatim>\<open>*funcStat\<close> is an address in the store of the analysis.
\<close>

record funcStat =
  dirties :: "(nat \<times> nat) list"
  fn :: nat
  returns :: "val list list"
  state :: state
  targetIndexes :: "nat list"
  why :: "DirtyReason list option"

text \<open>
  The \<^verbatim>\<open>RetLint\<close> fields that the analysis uses, the store of the
  \<^verbatim>\<open>funcStat\<close> objects (address 0 holds \<^verbatim>\<open>clean\<close>), and a history of the
  writes to the objects of the store: address, object before, object after.  The history
  is not a variable of the code; it is kept to state properties of a whole run.
\<close>

record RetLint =
  allowed :: "string list"
  stats :: "(nat \<times> nat) list"
  target :: string
  work :: "nat list"
  objects :: "funcStat list"
  history :: "(nat \<times> funcStat \<times> funcStat) list"

definition clean :: funcStat where
  "clean = \<lparr>dirties = [], fn = 0, returns = [], state = stateClean, targetIndexes = [],
     why = None\<rparr>"

definition deref :: "RetLint \<Rightarrow> nat \<Rightarrow> funcStat" where
  "deref l a = objects l ! a"

definition put :: "nat \<Rightarrow> funcStat \<Rightarrow> RetLint \<Rightarrow> RetLint" where
  "put a s l = l\<lparr>objects := (objects l)[a := s], history := history l @ [(a, deref l a, s)]\<rparr>"

text \<open>
  A panic carries its value (a string, or an error with its text) and the state that it
  leaves behind.
\<close>

datatype panic_value = PanicString string | PanicError string

datatype 'a res = Ok 'a | Panic panic_value RetLint | OutOfFuel

subsection \<open>isAllowed\<close>

fun isAllowed :: "string list \<Rightarrow> ty \<Rightarrow> bool option" where
  "isAllowed al (Pointer t) = isAllowed al t"
| "isAllowed al (Named n) = Some (n \<in> set al)"
| "isAllowed al (Tuple ts) = None"
| "isAllowed al (Basic b) = Some False"

subsection \<open>stat and extract\<close>

text \<open>The first half of \<^verbatim>\<open>stat\<close>: a new \<^verbatim>\<open>funcStat\<close> is stored and put on the work list.\<close>

definition new_stat :: "RetLint \<Rightarrow> nat \<Rightarrow> nat \<times> RetLint" where
  "new_stat l f =
     (let a = length (objects l) in
      (a, l\<lparr>objects := objects l @ [\<lparr>dirties = [], fn = f, returns = [], state = stateUnknown,
                                       targetIndexes = [], why = None\<rparr>],
             stats := AList.update f a (stats l),
             work := work l @ [a]\<rparr>))"

text \<open>The indexes of the results whose type is the named type \<^verbatim>\<open>l.target\<close>.\<close>

definition target_indexes :: "string \<Rightarrow> ty list \<Rightarrow> nat list" where
  "target_indexes tg results = filter (\<lambda>i. results ! i = Named tg) [0 ..< length results]"

text \<open>The \<^verbatim>\<open>Return\<close> instructions of all blocks, in order.\<close>

definition return_instrs :: "instr list list \<Rightarrow> val list list" where
  "return_instrs blocks =
     concat (map (\<lambda>block. concat (map (\<lambda>i. case i of Return rs \<Rightarrow> [rs] | OtherInstr \<Rightarrow> []) block))
       blocks)"

text \<open>
  \<^verbatim>\<open>extract\<close>.  Its last lines call \<^verbatim>\<open>l.stat(fn)\<close>, which finds the object that
  \<^verbatim>\<open>stat\<close> has just stored; were there none, it would store one (and run
  \<^verbatim>\<open>extract\<close> on it, to the same effect as the lines that follow).
\<close>

definition extract_pass :: "ssa_function list \<Rightarrow> RetLint \<Rightarrow> nat \<Rightarrow> RetLint" where
  "extract_pass pgm l f =
     (let results = f_results (function_at pgm f) in
      if results = [] then l\<lparr>stats := AList.update f 0 (stats l)\<rparr>
      else
        (let idx = target_indexes (target l) results in
         if idx = [] then l\<lparr>stats := AList.update f 0 (stats l)\<rparr>
         else
           (case (case map_of (stats l) f of Some a \<Rightarrow> (a, l) | None \<Rightarrow> new_stat l f) of
              (a, l1) \<Rightarrow>
                put a ((deref (put a ((deref l1 a)\<lparr>returns := return_instrs (f_blocks (function_at pgm f))\<rparr>) l1) a)
                         \<lparr>targetIndexes := idx\<rparr>)
                  (put a ((deref l1 a)\<lparr>returns := return_instrs (f_blocks (function_at pgm f))\<rparr>) l1))))"

definition stat :: "ssa_function list \<Rightarrow> RetLint \<Rightarrow> nat \<Rightarrow> nat \<times> RetLint" where
  "stat pgm l f =
     (case map_of (stats l) f of
        Some a \<Rightarrow> (a, l)
      | None \<Rightarrow> (case new_stat l f of (a, l1) \<Rightarrow> (a, extract_pass pgm l1 f)))"

subsection \<open>markDirty\<close>

text \<open>
  The loop \<^verbatim>\<open>for chained, call := range stat.dirties\<close> of \<^verbatim>\<open>markDirty\<close>, over the
  entries of the map in the order in which they were put in (Go leaves the order open).
  \<open>md\<close> is the recursive call.
\<close>

fun propagate ::
  "(nat \<Rightarrow> DirtyReason list \<Rightarrow> RetLint \<Rightarrow> RetLint res) \<Rightarrow> (nat \<times> nat) list \<Rightarrow> DirtyReason list
     \<Rightarrow> RetLint \<Rightarrow> RetLint res" where
  "propagate md [] w l = Ok l"
| "propagate md ((chained, call) # rest) w l =
     (case md chained (\<lparr>Reason = Calls, Value = call\<rparr> # w) l of
        Ok l' \<Rightarrow> propagate md rest w l'
      | Panic p l' \<Rightarrow> Panic p l'
      | OutOfFuel \<Rightarrow> OutOfFuel)"

text \<open>
  \<^verbatim>\<open>markDirty\<close>; the first argument bounds the depth of the recursion.
\<close>

primrec markDirty :: "nat \<Rightarrow> nat \<Rightarrow> DirtyReason list \<Rightarrow> RetLint \<Rightarrow> RetLint res" where
  "markDirty 0 a w l = OutOfFuel"
| "markDirty (Suc n) a w l =
     (let changed = (case why (deref l a) of None \<Rightarrow> True | Some old \<Rightarrow> length w < length old);
          l1 = (if changed then put a ((deref l a)\<lparr>why := Some w\<rparr>) l else l)
      in if state (deref l1 a) = stateDirty \<and> \<not> changed then Ok l1
         else
           (let l2 = put a ((deref l1 a)\<lparr>state := stateDirty\<rparr>) l1
            in propagate (markDirty n) (dirties (deref l2 a)) w l2))"

subsection \<open>decide and analyze\<close>

text \<open>
  \<^verbatim>\<open>decide\<close> with the loop over the edges of a phi.  \<open>n\<close> bounds the depth of
  \<^verbatim>\<open>markDirty\<close>, and \<open>an\<close> is the call of \<^verbatim>\<open>analyze\<close>.
\<close>

fun decide ::
  "ssa_function list \<Rightarrow> nat \<Rightarrow> (nat \<Rightarrow> RetLint \<Rightarrow> RetLint res) \<Rightarrow> nat \<Rightarrow> val \<Rightarrow> nat set \<Rightarrow> RetLint
     \<Rightarrow> (nat set \<times> RetLint) res"
and decide_edges ::
  "ssa_function list \<Rightarrow> nat \<Rightarrow> (nat \<Rightarrow> RetLint \<Rightarrow> RetLint res) \<Rightarrow> nat \<Rightarrow> val list \<Rightarrow> nat set \<Rightarrow> RetLint
     \<Rightarrow> (nat set \<times> RetLint) res" where
  "decide pgm n an a (Call i t callee) visited l =
     (if i \<in> visited then Ok (visited, l)
      else
        (case callee of
           Some f \<Rightarrow>
             (case stat pgm l f of
                (next, l1) \<Rightarrow>
                  (case an next l1 of
                     Ok l2 \<Rightarrow>
                       (case state (deref l2 next) of
                          stateClean \<Rightarrow> Ok (insert i visited, l2)
                        | stateDirty \<Rightarrow>
                            (case markDirty n a
                                    (\<lparr>Reason = Calls, Value = i\<rparr>
                                       # (case why (deref l2 next) of None \<Rightarrow> [] | Some w \<Rightarrow> w)) l2 of
                               Ok l3 \<Rightarrow> Ok (insert i visited, l3)
                             | Panic p l3 \<Rightarrow> Panic p l3
                             | OutOfFuel \<Rightarrow> OutOfFuel)
                        | _ \<Rightarrow>
                            Ok (insert i visited,
                                put next ((deref l2 next)\<lparr>dirties := AList.update a i (dirties (deref l2 next))\<rparr>) l2))
                   | Panic p l2 \<Rightarrow> Panic p l2
                   | OutOfFuel \<Rightarrow> OutOfFuel))
         | None \<Rightarrow>
             (case markDirty n a [\<lparr>Reason = CalleeNotStatic, Value = i\<rparr>] l of
                Ok l1 \<Rightarrow> Ok (insert i visited, l1)
              | Panic p l1 \<Rightarrow> Panic p l1
              | OutOfFuel \<Rightarrow> OutOfFuel)))"
| "decide pgm n an a (Const i t isNil) visited l =
     (if i \<in> visited then Ok (visited, l)
      else if isNil then Ok (insert i visited, l)
      else
        (case isAllowed (allowed l) t of
           None \<Rightarrow> Panic (PanicString ''should not see a tuple type; unpack in extract()'') l
         | Some True \<Rightarrow> Ok (insert i visited, l)
         | Some False \<Rightarrow>
             (case markDirty n a [\<lparr>Reason = ConstantOfType t, Value = i\<rparr>] l of
                Ok l1 \<Rightarrow> Ok (insert i visited, l1)
              | Panic p l1 \<Rightarrow> Panic p l1
              | OutOfFuel \<Rightarrow> OutOfFuel)))"
| "decide pgm n an a (Extract i t tuple) visited l =
     (if i \<in> visited then Ok (visited, l) else decide pgm n an a tuple (insert i visited) l)"
| "decide pgm n an a (MakeInterface i t x) visited l =
     (if i \<in> visited then Ok (visited, l) else decide pgm n an a x (insert i visited) l)"
| "decide pgm n an a (Phi i t edges) visited l =
     (if i \<in> visited then Ok (visited, l) else decide_edges pgm n an a edges (insert i visited) l)"
| "decide pgm n an a (TypeAssert i t asserted) visited l =
     (if i \<in> visited then Ok (visited, l)
      else
        (case isAllowed (allowed l) asserted of
           None \<Rightarrow> Panic (PanicString ''should not see a tuple type; unpack in extract()'') l
         | Some True \<Rightarrow> Ok (insert i visited, l)
         | Some False \<Rightarrow>
             (case markDirty n a [\<lparr>Reason = AssertionTo asserted, Value = i\<rparr>] l of
                Ok l1 \<Rightarrow> Ok (insert i visited, l1)
              | Panic p l1 \<Rightarrow> Panic p l1
              | OutOfFuel \<Rightarrow> OutOfFuel)))"
| "decide pgm n an a (UnOp i t op x) visited l =
     (if i \<in> visited then Ok (visited, l)
      else if op = MUL then decide pgm n an a x (insert i visited) l
      else Ok (insert i visited, l))"
| "decide pgm n an a (OtherValue i t) visited l =
     (if i \<in> visited then Ok (visited, l)
      else
        (case isAllowed (allowed l) t of
           None \<Rightarrow> Panic (PanicString ''should not see a tuple type; unpack in extract()'') l
         | Some True \<Rightarrow> Ok (insert i visited, l)
         | Some False \<Rightarrow>
             (case markDirty n a [\<lparr>Reason = ResultOfDisallowedType t, Value = i\<rparr>] l of
                Ok l1 \<Rightarrow> Ok (insert i visited, l1)
              | Panic p l1 \<Rightarrow> Panic p l1
              | OutOfFuel \<Rightarrow> OutOfFuel)))"
| "decide_edges pgm n an a [] visited l = Ok (visited, l)"
| "decide_edges pgm n an a (edge # edges) visited l =
     (case decide pgm n an a edge visited l of
        Ok (visited', l') \<Rightarrow> decide_edges pgm n an a edges visited' l'
      | Panic p l' \<Rightarrow> Panic p l'
      | OutOfFuel \<Rightarrow> OutOfFuel)"

text \<open>
  The two loops of \<^verbatim>\<open>analyze\<close> over the returns and the target indexes, as one loop
  over the pairs; \<^verbatim>\<open>ret.Results[idx]\<close> panics when the index is out of range.
\<close>

fun analyze_returns ::
  "(val \<Rightarrow> nat set \<Rightarrow> RetLint \<Rightarrow> (nat set \<times> RetLint) res) \<Rightarrow> nat \<Rightarrow> (val list \<times> nat) list \<Rightarrow> nat set
     \<Rightarrow> RetLint \<Rightarrow> RetLint res" where
  "analyze_returns dec a [] visited l = Ok l"
| "analyze_returns dec a ((ret, idx) # rest) visited l =
     (if idx < length ret
      then
        (case dec (ret ! idx) visited l of
           Ok (visited', l') \<Rightarrow>
             (if state (deref l' a) \<noteq> stateAnalyzing then Ok l'
              else analyze_returns dec a rest visited' l')
         | Panic p l' \<Rightarrow> Panic p l'
         | OutOfFuel \<Rightarrow> OutOfFuel)
      else Panic (PanicError ''index out of range'') l)"

text \<open>
  The deferred function of \<^verbatim>\<open>analyze\<close>: an error is wrapped with
  \<^verbatim>\<open>stat.fn.RelString\<close>, any other value is formatted after \<^verbatim>\<open>stat.fn.Name()\<close>;
  both are taken to be the name of the function.
\<close>

definition rewrap :: "string \<Rightarrow> panic_value \<Rightarrow> panic_value" where
  "rewrap name p =
     (case p of
        PanicError e \<Rightarrow> PanicError (name @ '': '' @ e)
      | PanicString s \<Rightarrow> PanicError (name @ '': '' @ s))"

primrec analyze :: "ssa_function list \<Rightarrow> nat \<Rightarrow> nat \<Rightarrow> RetLint \<Rightarrow> RetLint res" where
  "analyze pgm 0 a l = (if state (deref l a) \<noteq> stateUnknown then Ok l else OutOfFuel)"
| "analyze pgm (Suc n) a l =
     (if state (deref l a) \<noteq> stateUnknown then Ok l
      else
        (let l1 = put a ((deref l a)\<lparr>state := stateAnalyzing\<rparr>) l in
         case analyze_returns (decide pgm n (analyze pgm n) a) a
                (concat (map (\<lambda>ret. map (\<lambda>idx. (ret, idx)) (targetIndexes (deref l1 a)))
                   (returns (deref l1 a))))
                {} l1 of
           Ok l2 \<Rightarrow> Ok l2
         | Panic p l2 \<Rightarrow> Panic (rewrap (f_name (function_at pgm (fn (deref l1 a)))) p) l2
         | OutOfFuel \<Rightarrow> OutOfFuel))"

subsection \<open>resolve\<close>

text \<open>\<^verbatim>\<open>path.Split\<close>: the path up to and with the last slash, and the rest.\<close>

definition path_Split :: "string \<Rightarrow> string \<times> string" where
  "path_Split s =
     (let file = rev (takeWhile (\<lambda>c. c \<noteq> CHR ''/'') (rev s))
      in (take (length s - length file) s, file))"

text \<open>
  An \<^verbatim>\<open>ssa.Package\<close>: its path, its named members that are types (with their
  types), and its members as the first loop of \<^verbatim>\<open>Execute\<close> looks at them: a function,
  a type with the functions of the method sets of the type and of the pointer to it
  (\<^verbatim>\<open>MethodValue\<close> may give nil), or something else.
\<close>

datatype member = MFunction nat | MType "nat option list" "nat option list" | MOther

record package =
  p_id :: nat
  p_path :: string
  p_types :: "(string \<times> ty) list"
  p_members :: "member list"

datatype rl_error =
    NoTargetName
  | LoadFailed string
  | UnableToFindType string
  | NotANamedType string

text \<open>
  \<^verbatim>\<open>resolve\<close>: the universe scope is a table from names to the types of their objects.
  The result is a panic, an error or the name of the named type.
\<close>

definition resolve ::
  "(string \<times> ty) list \<Rightarrow> package list \<Rightarrow> string \<Rightarrow> panic_value + rl_error + string" where
  "resolve Universe allPackages typeName =
     (case path_Split typeName of
        (tgtPath, tgtName) \<Rightarrow>
          (case (if tgtPath = []
                 then (case map_of Universe tgtName of
                         None \<Rightarrow> Inl (PanicError ''runtime error: invalid memory address or nil pointer dereference'')
                       | Some t \<Rightarrow> Inr (Some t))
                 else (case find (\<lambda>pkg. p_path pkg = take (length tgtPath - 1) tgtPath) allPackages of
                         None \<Rightarrow> Inr None
                       | Some pkg \<Rightarrow> Inr (map_of (p_types pkg) tgtName))) of
             Inl p \<Rightarrow> Inl p
           | Inr None \<Rightarrow> Inr (Inl (UnableToFindType typeName))
           | Inr (Some (Named n)) \<Rightarrow> Inr (Inr n)
           | Inr (Some _) \<Rightarrow> Inr (Inl (NotANamedType tgtName))))"

text \<open>The loop over \<^verbatim>\<open>l.AllowedNames\<close>.\<close>

fun resolve_allowed ::
  "(string \<times> ty) list \<Rightarrow> package list \<Rightarrow> string list \<Rightarrow> string list
     \<Rightarrow> panic_value + rl_error + string list" where
  "resolve_allowed Universe allPackages [] acc = Inr (Inr acc)"
| "resolve_allowed Universe allPackages (name # names) acc =
     (case resolve Universe allPackages name of
        Inl p \<Rightarrow> Inl p
      | Inr (Inl err) \<Rightarrow> Inr (Inl err)
      | Inr (Inr found) \<Rightarrow> resolve_allowed Universe allPackages names (acc @ [found]))"

subsection \<open>Execute\<close>

text \<open>The loops that bootstrap the work.\<close>

fun stat_methods :: "ssa_function list \<Rightarrow> nat option list \<Rightarrow> RetLint \<Rightarrow> RetLint" where
  "stat_methods pgm [] l = l"
| "stat_methods pgm (None # ms) l = stat_methods pgm ms l"
| "stat_methods pgm (Some f # ms) l = stat_methods pgm ms (snd (stat pgm l f))"

fun stat_members :: "ssa_function list \<Rightarrow> member list \<Rightarrow> RetLint \<Rightarrow> RetLint" where
  "stat_members pgm [] l = l"
| "stat_members pgm (MFunction f # ms) l = stat_members pgm ms (snd (stat pgm l f))"
| "stat_members pgm (MType vs ps # ms) l =
     stat_members pgm ms (stat_methods pgm ps (stat_methods pgm vs l))"
| "stat_members pgm (MOther # ms) l = stat_members pgm ms l"

fun stat_packages :: "ssa_function list \<Rightarrow> package list \<Rightarrow> RetLint \<Rightarrow> RetLint" where
  "stat_packages pgm [] l = l"
| "stat_packages pgm (pkg # pkgs) l = stat_packages pgm pkgs (stat_members pgm (p_members pkg) l)"

text \<open>The loop \<^verbatim>\<open>for _, stat := range work\<close>.\<close>

fun analyze_all :: "(nat \<Rightarrow> RetLint \<Rightarrow> RetLint res) \<Rightarrow> nat list \<Rightarrow> RetLint \<Rightarrow> RetLint res" where
  "analyze_all an [] l = Ok l"
| "analyze_all an (a # as) l =
     (case an a l of
        Ok l' \<Rightarrow> analyze_all an as l'
      | Panic p l' \<Rightarrow> Panic p l'
      | OutOfFuel \<Rightarrow> OutOfFuel)"

text \<open>
  The loop \<^verbatim>\<open>for l.work != nil\<close>; the first argument bounds the number of rounds and
  the depth of the analysis.
\<close>

primrec work_loop :: "ssa_function list \<Rightarrow> nat \<Rightarrow> RetLint \<Rightarrow> RetLint res" where
  "work_loop pgm 0 l = (if work l = [] then Ok l else OutOfFuel)"
| "work_loop pgm (Suc n) l =
     (if work l = [] then Ok l
      else
        (case analyze_all (analyze pgm (Suc n)) (work l) (l\<lparr>work := []\<rparr>) of
           Ok l' \<Rightarrow> work_loop pgm n l'
         | Panic p l' \<Rightarrow> Panic p l'
         | OutOfFuel \<Rightarrow> OutOfFuel))"

text \<open>"Any functions not dirty by now are clean": the loop over the values of \<^verbatim>\<open>l.stats\<close>.\<close>

fun finish :: "nat list \<Rightarrow> RetLint \<Rightarrow> RetLint" where
  "finish [] l = l"
| "finish (a # as) l =
     finish as (if state (deref l a) = stateAnalyzing
                then put a ((deref l a)\<lparr>state := stateClean\<rparr>) l else l)"

text \<open>\<^verbatim>\<open>ast.IsExported\<close> on an ASCII name.\<close>

definition IsExported :: "string \<Rightarrow> bool" where
  "IsExported name =
     (case name of [] \<Rightarrow> False | c # cs \<Rightarrow> CHR ''A'' \<le> c \<and> c \<le> CHR ''Z'')"

text \<open>
  \<^verbatim>\<open>Execute\<close> from the loaded program on.  \<open>load\<close> is the error of
  \<^verbatim>\<open>packages.Load\<close> if any, \<open>allPackages\<close> are the packages of the program, \<open>sPkgs\<close>
  the packages that were asked for.  The result holds the error, or the addresses of the
  dirty functions that are returned and the final state.
\<close>

definition Execute_retlint ::
  "nat \<Rightarrow> string \<Rightarrow> string list \<Rightarrow> string option \<Rightarrow> (string \<times> ty) list \<Rightarrow> package list
     \<Rightarrow> package list \<Rightarrow> ssa_function list \<Rightarrow> (rl_error + nat list \<times> RetLint) res" where
  "Execute_retlint fuel TargetName AllowedNames load Universe allPackages sPkgs pgm =
     (if TargetName = [] then Ok (Inl NoTargetName)
      else
        (let l0 = \<lparr>allowed = [], stats = [], target = [], work = [], objects = [clean], history = []\<rparr>
         in case load of
              Some err \<Rightarrow> Ok (Inl (LoadFailed err))
            | None \<Rightarrow>
                (case resolve Universe allPackages TargetName of
                   Inl p \<Rightarrow> Panic p l0
                 | Inr (Inl err) \<Rightarrow> Ok (Inl err)
                 | Inr (Inr found) \<Rightarrow>
                     (case resolve_allowed Universe allPackages AllowedNames [] of
                        Inl p \<Rightarrow> Panic p (l0\<lparr>target := found\<rparr>)
                      | Inr (Inl err) \<Rightarrow> Ok (Inl err)
                      | Inr (Inr al) \<Rightarrow>
                          (case work_loop pgm fuel
                                  (stat_packages pgm sPkgs (l0\<lparr>target := found, allowed := al\<rparr>)) of
                             Ok l1 \<Rightarrow>
                               (let l2 = finish (map snd (stats l1)) l1 in
                                Ok (Inr (filter (\<lambda>a. state (deref l2 a) = stateDirty
                                            \<and> IsExported (f_name (function_at pgm (fn (deref l2 a))))
                                            \<and> f_pkg (function_at pgm (fn (deref l2 a))) \<in> set (map p_id sPkgs))
                                          (map snd (stats l2)), l2)))
                           | Panic p l1 \<Rightarrow> Panic p l1
                           | OutOfFuel \<Rightarrow> OutOfFuel)))))"

section \<open>Definitions for the properties of the enforcement runtime\<close>

definition expand_inv :: "targetAliases \<Rightarrow> string \<Rightarrow> target_ptr list \<Rightarrow> expansion \<Rightarrow> bool" where
  "expand_inv al0 k0 wk st \<longleftrightarrow>
     (\<forall>k. k \<noteq> k0 \<longrightarrow> map_of (aliases st) k = map_of al0 k) \<and>
     (\<exists>arr c. map_of (aliases st) k0 = Some (arr, c) \<and> arr \<noteq> [] \<and>
        fst ` set arr \<subseteq> seen st \<union> fst ` set wk \<union> fst ` set (nonTerm st))"

definition doomed :: "expansion \<Rightarrow> target_ptr list \<Rightarrow> bool" where
  "doomed st wk \<longleftrightarrow>
     \<not> distinct (map fst (nonTerm st)) \<or> (\<exists>x \<in> set (nonTerm st). fst x \<in> seen st \<union> fst ` set wk)"

definition ex_alias_AB :: target where
  "ex_alias_AB = \<lparr>config = [], contract = ''B'', enclosing = None, kind = KindType, object = 1, pos = 10\<rparr>"

definition ex_alias_BA :: target where
  "ex_alias_BA = \<lparr>config = [], contract = ''A'', enclosing = None, kind = KindType, object = 2, pos = 20\<rparr>"

definition ex_cyclic_aliases :: targetAliases where
  "ex_cyclic_aliases = [(''A'', [(1, ex_alias_AB)], 1), (''B'', [(2, ex_alias_BA)], 1)]"

definition ex_uses_A :: target_ptr where
  "ex_uses_A = (0, \<lparr>config = [], contract = ''A'', enclosing = None, kind = KindFunction, object = 3, pos = 50\<rparr>)"

definition ex_pgm :: ssaProgram where
  "ex_pgm = \<lparr>TypeMember = (\<lambda>obj. 100 + obj), FuncValue = (\<lambda>obj. 200 + obj)\<rparr>"

definition ex_impl :: contract_impl where
  "ex_impl tgt decl = ([], if contract tgt = ''MustReturnInt'' then Some ''boom'' else None)"

definition ex_failing :: target where
  "ex_failing = \<lparr>config = [], contract = ''MustReturnInt'', enclosing = None, kind = KindFunction,
     object = 3, pos = 50\<rparr>"

definition ex_passing :: target where
  "ex_passing = \<lparr>config = [], contract = ''CanGoHere'', enclosing = None, kind = KindType,
     object = 4, pos = 60\<rparr>"

definition annotation_targets :: "annotated list \<Rightarrow> target list" where
  "annotation_targets ds =
     concat (map (\<lambda>d. concat (map (\<lambda>group. concat (map (\<lambda>cm.
        map (\<lambda>m. \<lparr>config = TrimSpace (snd m), contract = fst m, enclosing = a_enclosing d,
                   kind = a_kind d, object = a_object d, pos = cpos cm\<rparr>) (matches cm))
        group)) (a_comments d))) ds)"

definition ex_twice :: "annotated list" where
  "ex_twice =
     [\<lparr>a_comments = [[\<lparr>cpos = 7, matches = [(''CanGoHere'', []), (''CanGoHere'', [])]\<rparr>]],
       a_alias_name = None, a_object = 3, a_enclosing = None, a_kind = KindFunction\<rparr>]"

definition ex_twice_target :: target where
  "ex_twice_target = \<lparr>config = [], contract = ''CanGoHere'', enclosing = None,
     kind = KindFunction, object = 3, pos = 7\<rparr>"

section \<open>Definitions for the properties of the return-type analysis\<close>

text \<open>
  An object is settled for reasons of \<open>k\<close> steps when it is dirty with a reason of at most
  \<open>k\<close> steps: \<^verbatim>\<open>markDirty\<close> returns at once on it.  \<open>mark\<close> is the store right after
  the two assignments of \<^verbatim>\<open>markDirty\<close>, before the loop over the dependents.
\<close>

definition settled :: "RetLint \<Rightarrow> nat \<Rightarrow> nat \<Rightarrow> bool" where
  "settled l k a \<longleftrightarrow>
     state (deref l a) = stateDirty \<and> (\<exists>w. why (deref l a) = Some w \<and> length w \<le> k)"

definition mark :: "nat \<Rightarrow> DirtyReason list \<Rightarrow> RetLint \<Rightarrow> RetLint" where
  "mark a w l =
     (let l1 = (if (case why (deref l a) of None \<Rightarrow> True | Some old \<Rightarrow> length w < length old)
                then put a ((deref l a)\<lparr>why := Some w\<rparr>) l else l)
      in put a ((deref l1 a)\<lparr>state := stateDirty\<rparr>) l1)"

text \<open>
  What \<^verbatim>\<open>markDirty\<close> leaves as it is: the store keeps its size, the tables of the
  analysis and every field but \<^verbatim>\<open>state\<close> and \<^verbatim>\<open>why\<close>; a state changes to dirty
  only, and a stored reason gets no longer.
\<close>

definition md_rel :: "RetLint \<Rightarrow> RetLint \<Rightarrow> bool" where
  "md_rel l l' \<longleftrightarrow>
     length (objects l') = length (objects l) \<and> allowed l' = allowed l \<and> stats l' = stats l
     \<and> target l' = target l \<and> work l' = work l
     \<and> (\<forall>a. dirties (deref l' a) = dirties (deref l a) \<and> fn (deref l' a) = fn (deref l a)
           \<and> returns (deref l' a) = returns (deref l a)
           \<and> targetIndexes (deref l' a) = targetIndexes (deref l a)
           \<and> (state (deref l' a) = state (deref l a) \<or> state (deref l' a) = stateDirty)
           \<and> (\<forall>old. why (deref l a) = Some old \<longrightarrow>
                 (\<exists>new. why (deref l' a) = Some new \<and> length new \<le> length old)))"

text \<open>What holds of the state that a call leaves behind, whether it returns or panics.\<close>

fun after :: "'a res \<Rightarrow> ('a \<Rightarrow> RetLint) \<Rightarrow> (RetLint \<Rightarrow> bool) \<Rightarrow> bool" where
  "after (Ok x) st Q = Q (st x)"
| "after (Panic p l) st Q = Q l"
| "after OutOfFuel st Q = True"

text \<open>The writes that the claim permits on an object of the store.\<close>

definition permitted :: "nat \<times> funcStat \<times> funcStat \<Rightarrow> bool" where
  "permitted e =
     (case e of (a, old, new) \<Rightarrow>
        (state old = stateDirty \<longrightarrow>
           new = old
           \<or> (case why old of
                 None \<Rightarrow> False
               | Some w \<Rightarrow>
                   (case why new of
                      None \<Rightarrow> False
                    | Some w' \<Rightarrow> length w' < length w \<and> new = old\<lparr>why := Some w'\<rparr>)))
        \<and> (state old = stateClean \<longrightarrow> new = old))"

text \<open>
  The values that never make \<^verbatim>\<open>decide\<close> mark the function dirty, given a set \<open>S\<close> of
  functions that are never dirty.
\<close>

fun ok_val :: "string list \<Rightarrow> nat set \<Rightarrow> val \<Rightarrow> bool" where
  "ok_val al S (Call i t callee) = (case callee of None \<Rightarrow> False | Some g \<Rightarrow> g \<in> S)"
| "ok_val al S (Const i t isNil) = (isNil \<or> isAllowed al t = Some True)"
| "ok_val al S (Extract i t tuple) = ok_val al S tuple"
| "ok_val al S (MakeInterface i t x) = ok_val al S x"
| "ok_val al S (Phi i t edges) = list_all (ok_val al S) edges"
| "ok_val al S (TypeAssert i t asserted) = (isAllowed al asserted = Some True)"
| "ok_val al S (UnOp i t op x) = (if op = MUL then ok_val al S x else True)"
| "ok_val al S (OtherValue i t) = (isAllowed al t = Some True)"

text \<open>
  The returned values of a function at its target indexes are such values; a set of
  functions is closed when this holds of each of its functions, given the set itself.
\<close>

definition rets_ok :: "string list \<Rightarrow> nat set \<Rightarrow> val list list \<Rightarrow> nat list \<Rightarrow> bool" where
  "rets_ok al S rets idx =
     list_all (\<lambda>ret. list_all (\<lambda>i. if i < length ret then ok_val al S (ret ! i) else True) idx) rets"

definition good_fn :: "ssa_function list \<Rightarrow> string \<Rightarrow> string list \<Rightarrow> nat set \<Rightarrow> nat \<Rightarrow> bool" where
  "good_fn pgm tg al S f =
     rets_ok al S (return_instrs (f_blocks (function_at pgm f)))
       (target_indexes tg (f_results (function_at pgm f)))"

definition closed :: "ssa_function list \<Rightarrow> string \<Rightarrow> string list \<Rightarrow> nat set \<Rightarrow> bool" where
  "closed pgm tg al S \<longleftrightarrow> (\<forall>f \<in> S. good_fn pgm tg al S f)"

text \<open>
  The invariant of a run, for a closed set \<open>S\<close> and a set \<open>P\<close> of objects that are being
  worked on.  Address 0 holds \<^verbatim>\<open>clean\<close> and no other object is clean; a dirty object
  has a reason; an object of a function of \<open>S\<close> is not dirty and holds returns of the
  kind above; the dependents of an object that is not of \<open>S\<close> are not of \<open>S\<close>; the
  table \<^verbatim>\<open>stats\<close> maps a function to \<^verbatim>\<open>clean\<close> or to an object of this function,
  which is on the work list or in \<open>P\<close> while its state is unknown; and every write so far
  was permitted.
\<close>

definition cell_ok :: "string list \<Rightarrow> nat set \<Rightarrow> nat \<Rightarrow> funcStat \<Rightarrow> bool" where
  "cell_ok al S a s \<longleftrightarrow>
     (a \<noteq> 0 \<longrightarrow> state s \<noteq> stateClean)
     \<and> (state s = stateDirty \<longrightarrow> why s \<noteq> None)
     \<and> (fn s \<in> S \<longrightarrow> state s \<noteq> stateDirty \<and> rets_ok al S (returns s) (targetIndexes s))"

definition deps_ok :: "nat set \<Rightarrow> RetLint \<Rightarrow> funcStat \<Rightarrow> bool" where
  "deps_ok S l s \<longleftrightarrow>
     (\<forall>(b, c) \<in> set (dirties s). 0 < b \<and> b < length (objects l)
         \<and> (fn s \<notin> S \<longrightarrow> fn (deref l b) \<notin> S))"

definition invariant :: "nat set \<Rightarrow> nat set \<Rightarrow> RetLint \<Rightarrow> bool" where
  "invariant S P l \<longleftrightarrow>
     objects l \<noteq> [] \<and> deref l 0 = clean
     \<and> (\<forall>a < length (objects l). cell_ok (allowed l) S a (deref l a) \<and> deps_ok S l (deref l a))
     \<and> (\<forall>f a. map_of (stats l) f = Some a \<longrightarrow>
           a < length (objects l) \<and> (a = 0 \<or> fn (deref l a) = f)
           \<and> (state (deref l a) = stateUnknown \<longrightarrow> a \<in> set (work l) \<union> P))
     \<and> (\<forall>a \<in> set (work l). 0 < a \<and> a < length (objects l))
     \<and> (\<forall>e \<in> set (history l). permitted e)"

text \<open>What no step of the analysis changes.\<close>

definition frame :: "RetLint \<Rightarrow> RetLint \<Rightarrow> bool" where
  "frame l l' \<longleftrightarrow>
     length (objects l) \<le> length (objects l') \<and> allowed l' = allowed l \<and> target l' = target l
     \<and> (\<forall>a < length (objects l).
           fn (deref l' a) = fn (deref l a) \<and> returns (deref l' a) = returns (deref l a)
           \<and> targetIndexes (deref l' a) = targetIndexes (deref l a)
           \<and> (state (deref l a) \<noteq> stateUnknown \<longrightarrow> state (deref l' a) \<noteq> stateUnknown))"

text \<open>
  The object that \<^verbatim>\<open>stat\<close> creates.
\<close>

definition fresh :: "nat \<Rightarrow> funcStat" where
  "fresh f = \<lparr>dirties = [], fn = f, returns = [], state = stateUnknown, targetIndexes = [],
     why = None\<rparr>"

text \<open>
  What the proofs about \<^verbatim>\<open>decide\<close> ask of the call of \<^verbatim>\<open>analyze\<close> that it is given.
\<close>

definition an_ok ::
  "nat set \<Rightarrow> nat set \<Rightarrow> string list \<Rightarrow> string \<Rightarrow> (nat \<Rightarrow> RetLint \<Rightarrow> RetLint res) \<Rightarrow> bool" where
  "an_ok S P al tg an \<longleftrightarrow>
     (\<forall>b l. invariant S P l \<longrightarrow> allowed l = al \<longrightarrow> target l = tg \<longrightarrow> b < length (objects l) \<longrightarrow>
        after (an b l) (\<lambda>l. l) (\<lambda>l'. invariant S P l' \<and> frame l l'))"

text \<open>
  What holds after the loops of \<^verbatim>\<open>Execute\<close>: when they return, no object is left to
  work on.
\<close>

definition post :: "nat set \<Rightarrow> RetLint \<Rightarrow> RetLint res \<Rightarrow> bool" where
  "post S l r =
     (case r of
        Ok l' \<Rightarrow> invariant S {} l' \<and> frame l l'
      | Panic p l' \<Rightarrow> (\<exists>P. invariant S P l') \<and> frame l l'
      | OutOfFuel \<Rightarrow> True)"

text \<open>
  What a run leaves behind: every function of the table \<^verbatim>\<open>stats\<close> is clean or
  dirty, and every write of the run was permitted.  A run that panics leaves the writes
  made so far.
\<close>

definition settled_stats :: "RetLint \<Rightarrow> bool" where
  "settled_stats l =
     list_all (\<lambda>f. case map_of (stats l) f of
                      None \<Rightarrow> True
                    | Some a \<Rightarrow> state (deref l a) = stateClean \<or> state (deref l a) = stateDirty)
       (map fst (stats l))"

definition monotone_run :: "(rl_error + nat list \<times> RetLint) res \<Rightarrow> bool" where
  "monotone_run r =
     (case r of
        Ok (Inl err) \<Rightarrow> True
      | Ok (Inr (dirty, l)) \<Rightarrow> list_all permitted (history l) \<and> settled_stats l
      | Panic p l \<Rightarrow> list_all permitted (history l)
      | OutOfFuel \<Rightarrow> True)"

text \<open>The functions that the values of a function call.\<close>

fun callees :: "val \<Rightarrow> nat set" where
  "callees (Call i t callee) = (case callee of None \<Rightarrow> {} | Some g \<Rightarrow> {g})"
| "callees (Const i t isNil) = {}"
| "callees (Extract i t tuple) = callees tuple"
| "callees (MakeInterface i t x) = callees x"
| "callees (Phi i t edges) = (\<Union>e \<in> set edges. callees e)"
| "callees (TypeAssert i t asserted) = {}"
| "callees (UnOp i t op x) = callees x"
| "callees (OtherValue i t) = {}"

text \<open>
  A finite set \<open>U\<close> of functions that holds the callees of its functions, and the stores
  that know functions of \<open>U\<close> only: there is one object per function of the table
  \<^verbatim>\<open>stats\<close> beside \<^verbatim>\<open>clean\<close>, the table holds addresses of the store, and the work
  list holds objects from address \<open>b\<close> on.
\<close>

definition rets_in :: "nat set \<Rightarrow> val list list \<Rightarrow> bool" where
  "rets_in U rets \<longleftrightarrow> (\<forall>ret \<in> set rets. \<forall>v \<in> set ret. callees v \<subseteq> U)"

definition U_closed :: "ssa_function list \<Rightarrow> nat set \<Rightarrow> bool" where
  "U_closed pgm U \<longleftrightarrow>
     finite U \<and> (\<forall>f \<in> U. rets_in U (return_instrs (f_blocks (function_at pgm f))))"

definition counted :: "nat set \<Rightarrow> nat \<Rightarrow> RetLint \<Rightarrow> bool" where
  "counted U b l \<longleftrightarrow>
     fst ` set (stats l) \<subseteq> U
     \<and> Suc (card (fst ` set (stats l))) = length (objects l)
     \<and> (\<forall>a \<in> snd ` set (stats l). a < length (objects l))
     \<and> (\<forall>a < length (objects l). rets_in U (returns (deref l a)))
     \<and> b \<le> length (objects l) \<and> (\<forall>a \<in> set (work l). b \<le> a)"

text \<open>
  The same of the call of \<^verbatim>\<open>analyze\<close> that \<^verbatim>\<open>decide\<close> is given.
\<close>

definition an_counted :: "nat set \<Rightarrow> nat \<Rightarrow> (nat \<Rightarrow> RetLint \<Rightarrow> RetLint res) \<Rightarrow> bool" where
  "an_counted U b an \<longleftrightarrow>
     (\<forall>x l. counted U b l \<longrightarrow> x < length (objects l) \<longrightarrow> after (an x l) (\<lambda>l. l) (counted U b))"

text \<open>The objects that a call of markDirty with a reason of \<open>k\<close> steps would still change.\<close>

definition unsettled :: "RetLint \<Rightarrow> nat \<Rightarrow> nat set" where
  "unsettled l k = {b. b < length (objects l) \<and> \<not> settled l k b}"

text \<open>The keys of the \<^verbatim>\<open>dirties\<close> maps are objects of the store.\<close>

definition deps_valid :: "RetLint \<Rightarrow> bool" where
  "deps_valid l =
     list_all (\<lambda>s. list_all (\<lambda>(b, c). b < length (objects l)) (dirties s)) (objects l)"

text \<open>
  The measure of the analysis: the functions of \<open>U\<close> without an object yet, and the
  objects whose state is still unknown.  A call of \<^verbatim>\<open>analyze\<close> that does anything
  takes one from it, and nothing adds to it.
\<close>

definition unknowns :: "RetLint \<Rightarrow> nat set" where
  "unknowns l = {a. a < length (objects l) \<and> state (deref l a) = stateUnknown}"

definition budget :: "nat set \<Rightarrow> RetLint \<Rightarrow> nat" where
  "budget U l = Suc (card U) - length (objects l) + card (unknowns l)"

definition good :: "nat set \<Rightarrow> nat \<Rightarrow> string list \<Rightarrow> string \<Rightarrow> RetLint \<Rightarrow> bool" where
  "good U b al tg l \<longleftrightarrow>
     invariant {} UNIV l \<and> counted U b l \<and> allowed l = al \<and> target l = tg"

text \<open>The calls of analyze that do not run out of fuel.\<close>

definition an_good ::
  "nat set \<Rightarrow> nat \<Rightarrow> string list \<Rightarrow> string \<Rightarrow> nat \<Rightarrow> (nat \<Rightarrow> RetLint \<Rightarrow> RetLint res) \<Rightarrow> bool" where
  "an_good U b al tg B an \<longleftrightarrow>
     an_ok {} UNIV al tg an \<and> an_counted U b an
     \<and> (\<forall>x l. good U b al tg l \<longrightarrow> x < length (objects l) \<longrightarrow> budget U l \<le> B \<longrightarrow>
           an x l \<noteq> OutOfFuel)"

text \<open>The rounds that the loop of Execute can still make.\<close>

definition rounds :: "nat set \<Rightarrow> RetLint \<Rightarrow> nat" where
  "rounds U l = Suc (card U) - length (objects l) + (if work l = [] then 0 else 1)"

text \<open>The functions that a run can meet: the members of the packages and the callees.\<close>

fun member_functions :: "member \<Rightarrow> nat set" where
  "member_functions (MFunction f) = {f}"
| "member_functions (MType vs ps) = {f. Some f \<in> set vs \<union> set ps}"
| "member_functions MOther = {}"

definition program_functions :: "ssa_function list \<Rightarrow> package list \<Rightarrow> nat set" where
  "program_functions pgm sp =
     (\<Union>pkg \<in> set sp. \<Union>m \<in> set (p_members pkg). member_functions m)
     \<union> (\<Union>fn \<in> set pgm. \<Union>ret \<in> set (return_instrs (f_blocks fn)). \<Union>v \<in> set ret. callees v)"

text \<open>The run of Execute after the names are resolved.\<close>

definition run_analysis ::
  "nat \<Rightarrow> string \<Rightarrow> string list \<Rightarrow> package list \<Rightarrow> ssa_function list
     \<Rightarrow> (rl_error + nat list \<times> RetLint) res" where
  "run_analysis fuel tg al sp pgm =
     (case work_loop pgm fuel
             (stat_packages pgm sp
                \<lparr>allowed = al, stats = [], target = tg, work = [], objects = [clean], history = []\<rparr>) of
        Ok l1 \<Rightarrow>
          (let l2 = finish (map snd (stats l1)) l1 in
           Ok (Inr (filter (\<lambda>a. state (deref l2 a) = stateDirty
                        \<and> IsExported (f_name (function_at pgm (fn (deref l2 a))))
                        \<and> f_pkg (function_at pgm (fn (deref l2 a))) \<in> set (map p_id sp))
                     (map snd (stats l2)), l2)))
      | Panic p l1 \<Rightarrow> Panic p l1
      | OutOfFuel \<Rightarrow> OutOfFuel)"

text \<open>
  The verdict of a run on a function, the reason stored for it, and the value of a panic.
\<close>

definition final_state :: "(rl_error + nat list \<times> RetLint) res \<Rightarrow> nat \<Rightarrow> state option" where
  "final_state r f =
     (case r of
        Ok (Inr (dirty, l)) \<Rightarrow> map_option (\<lambda>a. state (deref l a)) (map_of (stats l) f)
      | _ \<Rightarrow> None)"

definition final_why :: "(rl_error + nat list \<times> RetLint) res \<Rightarrow> nat \<Rightarrow> DirtyReason list option" where
  "final_why r f =
     (case r of
        Ok (Inr (dirty, l)) \<Rightarrow> Option.bind (map_of (stats l) f) (\<lambda>a. why (deref l a))
      | _ \<Rightarrow> None)"

definition panic_of :: "'a res \<Rightarrow> panic_value option" where
  "panic_of r = (case r of Panic p l \<Rightarrow> Some p | _ \<Rightarrow> None)"

text \<open>
  The function, if the run returns and knows it, is clean and not among the dirty
  functions returned.
\<close>

definition ends_clean :: "(rl_error + nat list \<times> RetLint) res \<Rightarrow> nat \<Rightarrow> bool" where
  "ends_clean r f =
     (case r of
        Ok (Inr (dirty, l)) \<Rightarrow>
          (case map_of (stats l) f of
             None \<Rightarrow> True
           | Some a \<Rightarrow> state (deref l a) = stateClean \<and> a \<notin> set dirty)
      | _ \<Rightarrow> True)"

text \<open>
  The words of the specification for the shortest explanation: the dirty-producing paths
  in the graph of calls and values that reach a function, by the rule table of
  \<^verbatim>\<open>decide\<close> in the specification (a call without static callee, a constant, an
  assertion or any other value of a type that is not allowed ends a path; a call with a
  static callee goes on with the paths of the callee, one hop longer), and the least
  number of hops of such a path.  Paths through more calls than the program has
  functions are not looked at: they are not the shortest.
\<close>

fun spec_val_hops :: "(nat \<Rightarrow> nat list) \<Rightarrow> string list \<Rightarrow> val \<Rightarrow> nat list" where
  "spec_val_hops callee_hops al (Call i t callee) =
     (case callee of None \<Rightarrow> [1] | Some g \<Rightarrow> map Suc (callee_hops g))"
| "spec_val_hops callee_hops al (Const i t isNil) =
     (if isNil \<or> isAllowed al t = Some True then [] else [1])"
| "spec_val_hops callee_hops al (Extract i t tuple) = spec_val_hops callee_hops al tuple"
| "spec_val_hops callee_hops al (MakeInterface i t x) = spec_val_hops callee_hops al x"
| "spec_val_hops callee_hops al (Phi i t edges) =
     concat (map (spec_val_hops callee_hops al) edges)"
| "spec_val_hops callee_hops al (TypeAssert i t asserted) =
     (if isAllowed al asserted = Some True then [] else [1])"
| "spec_val_hops callee_hops al (UnOp i t op x) =
     (if op = MUL then spec_val_hops callee_hops al x
      else if isAllowed al t = Some True then [] else [1])"
| "spec_val_hops callee_hops al (OtherValue i t) =
     (if isAllowed al t = Some True then [] else [1])"

primrec spec_hops :: "ssa_function list \<Rightarrow> string \<Rightarrow> string list \<Rightarrow> nat \<Rightarrow> nat \<Rightarrow> nat list" where
  "spec_hops pgm tg al 0 f = []"
| "spec_hops pgm tg al (Suc n) f =
     concat (map (\<lambda>ret.
         concat (map (\<lambda>idx. if idx < length ret
                             then spec_val_hops (spec_hops pgm tg al n) al (ret ! idx) else [])
                   (target_indexes tg (f_results (function_at pgm f)))))
       (return_instrs (f_blocks (function_at pgm f))))"

definition spec_min_hops ::
  "ssa_function list \<Rightarrow> string \<Rightarrow> string list \<Rightarrow> nat \<Rightarrow> nat option" where
  "spec_min_hops pgm tg al f =
     (case spec_hops pgm tg al (Suc (length pgm)) f of
        [] \<Rightarrow> None
      | h # hs \<Rightarrow> Some (fold min hs h))"

text \<open>
  The words of the specification for a function that returns only nil or values whose
  type, after unwrapping pointers, is allowed.
\<close>

definition spec_returns_allowed ::
  "ssa_function list \<Rightarrow> string \<Rightarrow> string list \<Rightarrow> nat \<Rightarrow> bool" where
  "spec_returns_allowed pgm tg al f =
     list_all (\<lambda>ret.
         list_all (\<lambda>idx. if idx < length ret
                          then (case ret ! idx of Const i t isNil \<Rightarrow> isNil | _ \<Rightarrow> False)
                               \<or> isAllowed al (Type (ret ! idx)) = Some True
                          else True)
           (target_indexes tg (f_results (function_at pgm f))))
       (return_instrs (f_blocks (function_at pgm f)))"

text \<open>
  Functions of the test data of the analysis, after \<^verbatim>\<open>testdata/data.go\<close>:
  \<^verbatim>\<open>errors.New\<close> returns a pointer to \<^verbatim>\<open>errorString\<close>, \<^verbatim>\<open>DirectBad\<close> returns
  \<^verbatim>\<open>errors.New("nope")\<close>, \<^verbatim>\<open>DirectGood\<close> returns a \<^verbatim>\<open>GoodValError\<close> or a
  pointer to a \<^verbatim>\<open>GoodPtrError\<close>, \<^verbatim>\<open>ExplicitReturnVarGood\<close> returns
  \<^verbatim>\<open>DirectGood()\<close>.  \<open>LongestWhyPath\<close> is \<^verbatim>\<open>ShortestWhyPath\<close> with its returns
  in another order: first \<^verbatim>\<open>return DirectBad()\<close>, then \<^verbatim>\<open>return &BadError{}\<close>.
  The target is \<^verbatim>\<open>error\<close>, the allowed types are \<^verbatim>\<open>GoodPtrError\<close> and
  \<^verbatim>\<open>GoodValError\<close>.
\<close>

definition error_t :: ty where "error_t = Named ''error''"

definition ex_universe :: "(string \<times> ty) list" where
  "ex_universe = [(''error'', Named ''error''), (''int'', Basic ''int'')]"

definition ex_New :: ssa_function where
  "ex_New = \<lparr>f_name = ''New'', f_pkg = 1, f_results = [error_t],
     f_blocks = [[OtherInstr,
                  Return [MakeInterface 1 error_t (OtherValue 2 (Pointer (Named ''errors.errorString'')))]]]\<rparr>"

definition ex_DirectBad :: ssa_function where
  "ex_DirectBad = \<lparr>f_name = ''DirectBad'', f_pkg = 0, f_results = [error_t],
     f_blocks = [[Return [Call 3 error_t (Some 0)]]]\<rparr>"

definition ex_LongestWhyPath :: ssa_function where
  "ex_LongestWhyPath = \<lparr>f_name = ''LongestWhyPath'', f_pkg = 0, f_results = [error_t],
     f_blocks = [[OtherInstr],
                 [Return [Call 4 error_t (Some 1)]],
                 [Return [MakeInterface 5 error_t (OtherValue 6 (Pointer (Named ''testdata.BadError'')))]]]\<rparr>"

definition ex_DirectGood :: ssa_function where
  "ex_DirectGood = \<lparr>f_name = ''DirectGood'', f_pkg = 0, f_results = [error_t],
     f_blocks = [[OtherInstr],
                 [Return [MakeInterface 7 error_t (OtherValue 8 (Named ''testdata.GoodValError''))]],
                 [Return [MakeInterface 9 error_t (OtherValue 10 (Pointer (Named ''testdata.GoodPtrError'')))]]]\<rparr>"

definition ex_ExplicitReturnVarGood :: ssa_function where
  "ex_ExplicitReturnVarGood = \<lparr>f_name = ''ExplicitReturnVarGood'', f_pkg = 0, f_results = [error_t],
     f_blocks = [[Return [Call 11 error_t (Some 3)]]]\<rparr>"

definition ex_program :: "ssa_function list" where
  "ex_program = [ex_New, ex_DirectBad, ex_LongestWhyPath, ex_DirectGood, ex_ExplicitReturnVarGood]"

definition ex_testdata :: "member list \<Rightarrow> package" where
  "ex_testdata ms = \<lparr>p_id = 0, p_path = ''testdata'',
     p_types = [(''BadError'', Named ''testdata.BadError''),
                (''GoodPtrError'', Named ''testdata.GoodPtrError''),
                (''GoodValError'', Named ''testdata.GoodValError'')],
     p_members = ms\<rparr>"

definition ex_members :: "member list" where
  "ex_members = [MFunction 1, MFunction 2, MFunction 3, MFunction 4]"

definition ex_allowed :: "string list" where
  "ex_allowed = [''testdata/GoodPtrError'', ''testdata/GoodValError'']"

definition ex_run :: "(rl_error + nat list \<times> RetLint) res" where
  "ex_run = Execute_retlint 10 ''error'' ex_allowed None ex_universe
              [ex_testdata ex_members] [ex_testdata ex_members] ex_program"

text \<open>
  \<^verbatim>\<open>func Receives(c chan error) error { return <-c }\<close>: the returned value is a
  unary operation that is not a dereference.
\<close>

definition ex_Receives :: ssa_function where
  "ex_Receives = \<lparr>f_name = ''Receives'', f_pkg = 0, f_results = [error_t],
     f_blocks = [[Return [UnOp 1 error_t ARROW (OtherValue 2 (Basic ''chan error''))]]]\<rparr>"

text \<open>
  \<^verbatim>\<open>func Ranges(m map[string]error) error { for _, err := range m { return err }; return nil }\<close>:
  the returned value is extracted from the tuple (ok, key, value) of the \<^verbatim>\<open>ssa.Next\<close>
  instruction of the loop.
\<close>

definition ex_Ranges :: ssa_function where
  "ex_Ranges = \<lparr>f_name = ''Ranges'', f_pkg = 0, f_results = [error_t],
     f_blocks = [[OtherInstr],
                 [Return [Extract 1 error_t (OtherValue 2 (Tuple [Basic ''bool'', Basic ''string'', error_t]))]],
                 [Return [Const 3 error_t True]]]\<rparr>"

text \<open>
  \<^verbatim>\<open>MakesIndirectCall\<close> of the test data returns \<^verbatim>\<open>fn()\<close> for a parameter
  \<^verbatim>\<open>fn func() error\<close>; \<open>MakesIndirectGood\<close> does the same for a parameter
  \<^verbatim>\<open>fn func() *GoodPtrError\<close>.  In the run the allowed types are \<^verbatim>\<open>error\<close>
  and \<^verbatim>\<open>GoodPtrError\<close>.
\<close>

definition ex_MakesIndirectCall :: ssa_function where
  "ex_MakesIndirectCall = \<lparr>f_name = ''MakesIndirectCall'', f_pkg = 0, f_results = [error_t],
     f_blocks = [[Return [Call 1 error_t None]]]\<rparr>"

definition ex_MakesIndirectGood :: ssa_function where
  "ex_MakesIndirectGood = \<lparr>f_name = ''MakesIndirectGood'', f_pkg = 0, f_results = [error_t],
     f_blocks = [[Return [MakeInterface 2 error_t (Call 3 (Pointer (Named ''testdata.GoodPtrError'')) None)]]]\<rparr>"

definition ex_indirect :: "(rl_error + nat list \<times> RetLint) res" where
  "ex_indirect = Execute_retlint 10 ''error'' [''error'', ''testdata/GoodPtrError''] None ex_universe
     [ex_testdata [MFunction 0, MFunction 1]] [ex_testdata [MFunction 0, MFunction 1]]
     [ex_MakesIndirectCall, ex_MakesIndirectGood]"

text \<open>
  A store with two functions: the second one depends on the first one through the call 7
  and is dirty with a reason of three steps.
\<close>

definition ex_store :: RetLint where
  "ex_store = \<lparr>allowed = [], stats = [(0, 1), (1, 2)], target = ''error'', work = [],
     objects = [clean,
       \<lparr>dirties = [(2, 7)], fn = 0, returns = [], state = stateAnalyzing, targetIndexes = [0], why = None\<rparr>,
       \<lparr>dirties = [], fn = 1, returns = [], state = stateDirty, targetIndexes = [0],
          why = Some [\<lparr>Reason = Calls, Value = 8\<rparr>, \<lparr>Reason = Calls, Value = 9\<rparr>,
                      \<lparr>Reason = CalleeNotStatic, Value = 10\<rparr>]\<rparr>],
     history = []\<rparr>"

section \<open>Properties of the enforcement runtime\<close>

lemma inv_append_nonTerm:
  assumes i: "expand_inv al0 k0 wk st"
  shows "expand_inv al0 k0 wk (append_nonTerm k0 c m st)"
proof -
  from i obtain arr c0 where arr: "map_of (aliases st) k0 = Some (arr, c0)" "arr \<noteq> []"
    "fst ` set arr \<subseteq> seen st \<union> fst ` set wk \<union> fst ` set (nonTerm st)"
    and oth: "\<forall>k. k \<noteq> k0 \<longrightarrow> map_of (aliases st) k = map_of al0 k"
    by (auto simp: expand_inv_def)
  show ?thesis
  proof (cases "shares st \<and> length (nonTerm st) + length m \<le> c")
    case False
    then show ?thesis using arr oth
      by (auto simp: expand_inv_def append_nonTerm_def)
  next
    case True
    let ?arr = "overwrite arr (length (nonTerm st)) m"
    have al: "aliases (append_nonTerm k0 c m st) = AList.update k0 (?arr, c0) (aliases st)"
      using True arr by (simp add: append_nonTerm_def)
    have ne: "?arr \<noteq> []" using arr(2) length_overwrite [of arr "length (nonTerm st)" m]
      by (metis length_0_conv)
    have "fst ` set ?arr \<subseteq> fst ` set arr \<union> fst ` set m"
      using set_overwrite [of arr "length (nonTerm st)" m] by auto
    then have sub: "fst ` set ?arr \<subseteq> seen st \<union> fst ` set wk \<union> fst ` set (nonTerm st @ m)"
      using arr(3) by auto
    show ?thesis
      unfolding expand_inv_def al using oth ne sub
      by (auto simp: update_conv')
  qed
qed

lemma doomed_loop:
  assumes "doomed st []"
  shows "\<exists>err. expand_loop base c st = Inl err"
proof -
  from assms have ne: "nonTerm st \<noteq> []" by (auto simp: doomed_def)
  show ?thesis
  proof (cases "expand_work base c (nonTerm st) (st\<lparr>nonTerm := []\<rparr>)")
    case (Inl err)
    then show ?thesis using ne by (subst expand_loop.simps) simp
  next
    case (Inr st1)
    from expand_work_Inr [OF Inr] have "distinct (map fst (nonTerm st))"
      "fst ` set (nonTerm st) \<inter> seen st = {}" by auto
    with assms show ?thesis by (auto simp: doomed_def)
  qed
qed

lemma expand_work_inv:
  assumes "expand_work base c wk st = Inr st'" and "expand_inv al0 (contract base) wk st"
  shows "expand_inv al0 (contract base) [] st'
     \<and> (\<exists>ys. nonTerm st' = nonTerm st @ ys)
     \<and> (doomed st wk \<longrightarrow> doomed st' [])
     \<and> (doomed st' [] \<or> (\<forall>a \<in> set wk. set (succs al0 (snd a)) \<subseteq> set (nonTerm st')))"
  using assms
proof (induction wk arbitrary: st)
  case Nil
  then show ?case by simp
next
  case (Cons a wk)
  let ?k0 = "contract base"
  from Cons.prems(1) have ns: "fst a \<notin> seen st" by (auto split: if_splits)
  let ?st1 = "st\<lparr>seen := insert (fst a) (seen st)\<rparr>"
  from Cons.prems(2) obtain arr c0 where arr: "map_of (aliases st) ?k0 = Some (arr, c0)" "arr \<noteq> []"
    "fst ` set arr \<subseteq> seen st \<union> fst ` set (a # wk) \<union> fst ` set (nonTerm st)"
    and oth: "\<forall>k. k \<noteq> ?k0 \<longrightarrow> map_of (aliases st) k = map_of al0 k"
    by (auto simp: expand_inv_def)
  have inv1: "expand_inv al0 ?k0 wk ?st1"
    using arr oth by (auto simp: expand_inv_def)
  have d1: "doomed st (a # wk) \<Longrightarrow> doomed ?st1 wk"
    by (auto simp: doomed_def)
  show ?case
  proof (cases "map_of (aliases st) (contract (snd a))")
    case None
    let ?st2 = "?st1\<lparr>terminal := terminal ?st1 @ [base\<lparr>contract := contract (snd a),
                                              config := config (snd a)\<rparr>]\<rparr>"
    from Cons.prems(1) ns None have w: "expand_work base c wk ?st2 = Inr st'"
      by (simp add: Let_def)
    have inv2: "expand_inv al0 ?k0 wk ?st2" using inv1 by (simp add: expand_inv_def)
    from Cons.IH [OF w inv2]
    have ih: "expand_inv al0 ?k0 [] st'" "\<exists>ys. nonTerm st' = nonTerm ?st2 @ ys"
      "doomed ?st2 wk \<longrightarrow> doomed st' []"
      "doomed st' [] \<or> (\<forall>a \<in> set wk. set (succs al0 (snd a)) \<subseteq> set (nonTerm st'))"
      by auto
    have d2: "doomed ?st1 wk \<Longrightarrow> doomed ?st2 wk" by (simp add: doomed_def)
    have ne: "contract (snd a) \<noteq> ?k0" using None arr by auto
    then have "succs al0 (snd a) = []" using None oth by (simp add: succs_def)
    then show ?thesis using ih d1 d2 by auto
  next
    case (Some e)
    obtain m c' where e: "e = (m, c')" by (cases e)
    let ?st2 = "append_nonTerm ?k0 c m ?st1"
    from Cons.prems(1) ns Some e have w: "expand_work base c wk ?st2 = Inr st'"
      by (simp add: Let_def)
    have inv2: "expand_inv al0 ?k0 wk ?st2" using inv1 by (rule inv_append_nonTerm)
    from Cons.IH [OF w inv2]
    have ih: "expand_inv al0 ?k0 [] st'" "\<exists>ys. nonTerm st' = nonTerm ?st2 @ ys"
      "doomed ?st2 wk \<longrightarrow> doomed st' []"
      "doomed st' [] \<or> (\<forall>a \<in> set wk. set (succs al0 (snd a)) \<subseteq> set (nonTerm st'))"
      by auto
    have d2: "doomed ?st1 wk \<Longrightarrow> doomed ?st2 wk" by (auto simp: doomed_def)
    have grow: "set m \<subseteq> set (nonTerm st')" using ih(2) by auto
    have "doomed st' [] \<or> set (succs al0 (snd a)) \<subseteq> set (nonTerm st')"
    proof (cases "contract (snd a) = ?k0")
      case False
      then have "succs al0 (snd a) = m" using Some e oth by (simp add: succs_def)
      then show ?thesis using grow by simp
    next
      case True
      then have m: "m = arr" using Some e arr by simp
      from arr(2) obtain x where x: "x \<in> set arr" by (cases arr) auto
      then have "fst x \<in> seen st \<union> fst ` set (a # wk) \<union> fst ` set (nonTerm st)"
        using arr(3) by auto
      then have "doomed ?st2 wk"
      proof
        assume "fst x \<in> seen st \<union> fst ` set (a # wk)"
        then show ?thesis using x m by (auto simp: doomed_def)
      next
        assume "fst x \<in> fst ` set (nonTerm st)"
        then have "fst x \<in> set (map fst (nonTerm st)) \<inter> set (map fst m)"
          using x m by auto
        then have "\<not> distinct (map fst (nonTerm st) @ map fst m)" by auto
        then show ?thesis by (simp add: doomed_def)
      qed
      then show ?thesis using ih(3) by simp
    qed
    then show ?thesis using ih d1 d2 by auto
  qed
qed

lemma alias_chain_Suc: "alias_chain al (Suc n) t \<Longrightarrow> alias_chain al n t"
  by (induction n arbitrary: t) auto

lemma alias_chain_add: "alias_chain al (m + d) t \<Longrightarrow> alias_chain al m t"
proof (induction d)
  case 0
  then show ?case by simp
next
  case (Suc d)
  from Suc.prems have "alias_chain al (Suc (m + d)) t" by simp
  then have "alias_chain al (m + d) t" by (rule alias_chain_Suc)
  then show ?case by (rule Suc.IH)
qed

lemma alias_chain_mono: "alias_chain al n t \<Longrightarrow> m \<le> n \<Longrightarrow> alias_chain al m t"
  using alias_chain_add [of al m "n - m" t] by simp

lemma bounded_list:
  assumes "\<forall>x \<in> set xs. \<exists>N. \<not> alias_chain al N (snd x)"
  shows "\<exists>N. \<forall>x \<in> set xs. \<not> alias_chain al N (snd x)"
  using assms
proof (induction xs)
  case Nil
  then show ?case by simp
next
  case (Cons x xs)
  then obtain N1 N2 where "\<not> alias_chain al N1 (snd x)" "\<forall>y \<in> set xs. \<not> alias_chain al N2 (snd y)"
    by auto
  then have "\<forall>y \<in> set (x # xs). \<not> alias_chain al (max N1 N2) (snd y)"
    by (auto dest: alias_chain_mono [where m = N1 and n = "max N1 N2"]
        alias_chain_mono [where m = N2 and n = "max N1 N2"])
  then show ?case by blast
qed

lemma expand_loop_bounded:
  "expand_inv al0 (contract base) [] st \<Longrightarrow> expand_loop base c st = Inr st' \<Longrightarrow>
     \<forall>t \<in> set (nonTerm st). \<exists>N. \<not> alias_chain al0 N (snd t)"
proof (induction base c st rule: expand_loop.induct)
  case (1 base c st)
  show ?case
  proof (cases "nonTerm st = []")
    case True
    then show ?thesis by simp
  next
    case False
    from "1.prems"(2) False
    have "(case expand_work base c (nonTerm st) (st\<lparr>nonTerm := []\<rparr>) of
             Inl err \<Rightarrow> Inl err | Inr st1 \<Rightarrow> expand_loop base c st1) = Inr st'"
      by (subst (asm) expand_loop.simps) simp
    then obtain st1 where
      w: "expand_work base c (nonTerm st) (st\<lparr>nonTerm := []\<rparr>) = Inr st1"
      and l: "expand_loop base c st1 = Inr st'"
      by (auto split: sum.splits)
    have i0: "expand_inv al0 (contract base) (nonTerm st) (st\<lparr>nonTerm := []\<rparr>)"
      using "1.prems"(1) by (auto simp: expand_inv_def)
    from expand_work_inv [OF w i0]
    have i1: "expand_inv al0 (contract base) [] st1"
      and s: "doomed st1 [] \<or> (\<forall>a \<in> set (nonTerm st). set (succs al0 (snd a)) \<subseteq> set (nonTerm st1))"
      by auto
    have "\<not> doomed st1 []" using doomed_loop [of st1 base c] l by auto
    with s have sub: "\<forall>a \<in> set (nonTerm st). set (succs al0 (snd a)) \<subseteq> set (nonTerm st1)"
      by simp
    from "1.IH" [OF False w i1 l]
    have ih: "\<forall>t \<in> set (nonTerm st1). \<exists>N. \<not> alias_chain al0 N (snd t)" .
    show ?thesis
    proof
      fix t assume t: "t \<in> set (nonTerm st)"
      have "\<forall>x \<in> set (succs al0 (snd t)). \<exists>N. \<not> alias_chain al0 N (snd x)"
        using sub t ih by blast
      from bounded_list [OF this] obtain N where
        "\<forall>x \<in> set (succs al0 (snd t)). \<not> alias_chain al0 N (snd x)" ..
      then have "\<not> alias_chain al0 (Suc N) (snd t)" by simp
      then show "\<exists>N. \<not> alias_chain al0 N (snd t)" ..
    qed
  qed
qed

lemma expand_work_error:
  "expand_work base c wk st = Inl err \<Longrightarrow>
     \<exists>a \<in> set wk. err = RecursiveContract (pos base) (contract (snd a))"
  by (induction wk arbitrary: st) (auto simp: Let_def split: if_splits option.splits)

lemma expand_loop_error:
  "expand_loop base c st = Inl err \<Longrightarrow>
     \<exists>a \<in> cells st. err = RecursiveContract (pos base) (contract (snd a))"
proof (induction base c st rule: expand_loop.induct)
  case (1 base c st)
  from "1.prems" have ne: "nonTerm st \<noteq> []"
    by (subst (asm) expand_loop.simps) (auto split: if_splits)
  show ?case
  proof (cases "expand_work base c (nonTerm st) (st\<lparr>nonTerm := []\<rparr>)")
    case (Inl e)
    with "1.prems" ne have "e = err" by (subst (asm) expand_loop.simps) simp
    with Inl expand_work_error [of base c "nonTerm st" "st\<lparr>nonTerm := []\<rparr>" err]
    show ?thesis by (auto simp: cells_def)
  next
    case (Inr st1)
    with "1.prems" ne have l: "expand_loop base c st1 = Inl err"
      by (subst (asm) expand_loop.simps) simp
    from "1.IH" [OF ne Inr l] obtain a where
      a: "a \<in> cells st1" "err = RecursiveContract (pos base) (contract (snd a))" by blast
    from expand_work_Inr [OF Inr] have "cells st1 \<subseteq> cells (st\<lparr>nonTerm := []\<rparr>)" by simp
    then have "cells st1 \<subseteq> cells st" by (auto simp: cells_def)
    with a show ?thesis by blast
  qed
qed

lemma path_alias_chain:
  "alias_path al x (ps @ [t]) \<Longrightarrow> alias_chain al n (snd t) \<Longrightarrow> alias_chain al (n + length ps + 1) x"
proof (induction ps arbitrary: x)
  case Nil
  then show ?case by auto
next
  case (Cons p ps)
  from Cons.prems have "p \<in> set (succs al x)" "alias_path al (snd p) (ps @ [t])" by auto
  with Cons.IH [of "snd p"] Cons.prems(2) show ?case by auto
qed

lemma cycle_alias_chain:
  assumes "alias_path al (snd t) (q @ [t])"
  shows "alias_chain al n (snd t)"
proof (induction n)
  case 0
  show ?case by simp
next
  case (Suc n)
  from path_alias_chain [OF assms Suc] have "alias_chain al (n + length q + 1) (snd t)" .
  then show ?case by (rule alias_chain_mono) simp
qed



lemma worker_no_error: "snd (worker pgm impl tgts) \<noteq> Inr (Some e)"
proof (induction tgts)
  case Nil
  show ?case by simp
next
  case (Cons t tgts)
  then show ?case
    by (auto simp: enforce_def split: prod.splits sum.splits option.splits)
qed

lemma enforce_result:
  "impl_declaration pgm t = Inr d \<Longrightarrow> snd (enforce pgm impl t) = Inr None"
  by (auto simp: enforce_def split: prod.splits option.splits)

lemma worker_all:
  "\<forall>t \<in> set tgts. \<exists>d. impl_declaration pgm t = Inr d \<Longrightarrow>
     worker pgm impl tgts = (concat (map (\<lambda>t. fst (enforce pgm impl t)) tgts), Inr None)"
proof (induction tgts)
  case Nil
  show ?case by simp
next
  case (Cons t tgts)
  from Cons.prems obtain d where d: "impl_declaration pgm t = Inr d" by auto
  obtain sent r where e: "enforce pgm impl t = (sent, r)" by (cases "enforce pgm impl t")
  with enforce_result [OF d, of impl] have r: "r = Inr None" by simp
  from Cons have ih: "worker pgm impl tgts = (concat (map (\<lambda>t. fst (enforce pgm impl t)) tgts), Inr None)"
    by simp
  show ?case using e r ih by simp
qed

text \<open>
  Claim C6.  When \<^verbatim>\<open>Enforce\<close> returns an error for a target, \<^verbatim>\<open>enforce\<close> sends
  one more report, against the declaration of the target, whose text is the name of the
  contract, a colon and the error; \<^verbatim>\<open>enforce\<close> itself returns nil.  So the worker
  does not stop: \<^verbatim>\<open>enforceAll\<close> returns nil and the reports of every target, this
  one among them, have been sent.
\<close>

theorem enforce_error_is_reported:
  assumes "\<forall>t \<in> set tgts. \<exists>d. impl_declaration pgm t = Inr d"
    and "tgt \<in> set tgts"
    and "impl_declaration pgm tgt = Inr decl"
    and "impl tgt decl = (sent, Some err)"
  shows "enforce pgm impl tgt
           = (sent @ [\<lparr>rpos = decl, rtarget = tgt, info = contract tgt @ '': '' @ err\<rparr>], Inr None)
       \<and> snd (enforceAll pgm impl tgts) = Inr None
       \<and> \<lparr>rpos = decl, rtarget = tgt, info = contract tgt @ '': '' @ err\<rparr>
            \<in> set (fst (enforceAll pgm impl tgts))
       \<and> (\<forall>t \<in> set tgts. set (fst (enforce pgm impl t)) \<subseteq> set (fst (enforceAll pgm impl tgts)))"
proof -
  have e: "enforce pgm impl tgt
           = (sent @ [\<lparr>rpos = decl, rtarget = tgt, info = contract tgt @ '': '' @ err\<rparr>], Inr None)"
    using assms(3,4) by (simp add: enforce_def Reportf_def)
  have w: "enforceAll pgm impl tgts = (concat (map (\<lambda>t. fst (enforce pgm impl t)) tgts), Inr None)"
    unfolding enforceAll_def using assms(1) by (rule worker_all)
  have m: "\<lparr>rpos = decl, rtarget = tgt, info = contract tgt @ '': '' @ err\<rparr>
       \<in> set (fst (enforce pgm impl tgt))" using e by simp
  have sub: "\<forall>t \<in> set tgts. set (fst (enforce pgm impl t)) \<subseteq> set (fst (enforceAll pgm impl tgts))"
    using w by auto
  from sub assms(2) m have "\<lparr>rpos = decl, rtarget = tgt, info = contract tgt @ '': '' @ err\<rparr>
       \<in> set (fst (enforceAll pgm impl tgts))" by blast
  with e w sub show ?thesis by simp
qed

text \<open>A contract that fails on the first of two targets.\<close>

theorem enforce_error_is_reported_witness:
  "enforce ex_pgm ex_impl ex_failing
     = ([\<lparr>rpos = 203, rtarget = ex_failing, info = ''MustReturnInt: boom''\<rparr>], Inr None)
   \<and> snd (enforceAll ex_pgm ex_impl [ex_failing, ex_passing]) = Inr None
   \<and> \<lparr>rpos = 203, rtarget = ex_failing, info = ''MustReturnInt: boom''\<rparr>
        \<in> set (fst (enforceAll ex_pgm ex_impl [ex_failing, ex_passing]))"
proof -
  have a: "\<forall>t \<in> set [ex_failing, ex_passing]. \<exists>d. impl_declaration ex_pgm t = Inr d"
    by (simp add: impl_declaration_def ex_failing_def ex_passing_def)
  have b: "ex_failing \<in> set [ex_failing, ex_passing]" by simp
  have c: "impl_declaration ex_pgm ex_failing = Inr 203"
    by (simp add: impl_declaration_def ex_failing_def ex_pgm_def)
  have d: "ex_impl ex_failing 203 = ([], Some ''boom'')"
    by (simp add: ex_impl_def ex_failing_def)
  have k: "contract ex_failing = ''MustReturnInt''" by (simp add: ex_failing_def)
  from enforce_error_is_reported [where impl = ex_impl, OF a b c d] show ?thesis by (simp add: k)
qed

text \<open>
  Claim C7.  With \<^verbatim>\<open>--set_exit_status\<close>, a run over packages without annotations
  returns no report and no error, and \<^verbatim>\<open>Main\<close> still exits with code 1:
  \<^verbatim>\<open>RunE\<close> replaces a nil error by "reports generated" without looking at the
  results.
\<close>

theorem Main_exit_set_exit_status:
  "Execute [''./...''] [] Contracts decodes pgm impl = Inr ([], None)
   \<and> report_count [] = 0
   \<and> Main_exit True ([], None) = 1"
  by (simp add: Execute_def findContracts_def expandAll_def enforceAll_def collect_def
      sort_target_ptrs_def report_count_def Main_exit_def RunE_def)

lemma Main_exit_eq: "Main_exit s (results, err) = (if err = None \<and> \<not> s then 0 else 1)"
  by (cases err) (simp_all add: Main_exit_def RunE_def)

lemma insort_key_map:
  "map g (insort_key (\<lambda>x. f (g x)) a xs) = insort_key f (g a) (map g xs)"
  by (induction xs) simp_all

lemma sort_key_map: "map g (sort_key (\<lambda>x. f (g x)) xs) = sort_key f (map g xs)"
  by (induction xs) (simp_all add: insort_key_map)

lemma expand_targets_no_alias:
  "\<forall>t \<in> set tgts. map_of al (contract (snd t)) = None \<Longrightarrow>
     expand_targets al tgts = Inr (map snd tgts, al)"
  by (induction tgts) (simp_all add: expand_def)

lemma add_match_None:
  "mu_aliases (foldl (add_match None obj encl k p) mu ms) = mu_aliases mu
   \<and> map snd (mu_targets (foldl (add_match None obj encl k p) mu ms))
       = map snd (mu_targets mu)
         @ map (\<lambda>m. \<lparr>config = TrimSpace (snd m), contract = fst m, enclosing = encl,
                     kind = k, object = obj, pos = p\<rparr>) ms"
  by (induction ms arbitrary: mu) (simp_all add: add_match_def Let_def)

lemma contract_closure_None:
  assumes "a_alias_name d = None"
  shows "mu_aliases (contract_closure mu d) = mu_aliases mu
     \<and> map snd (mu_targets (contract_closure mu d))
         = map snd (mu_targets mu) @ annotation_targets [d]"
proof -
  let ?am = "\<lambda>cm. add_match None (a_object d) (a_enclosing d) (a_kind d) (cpos cm)"
  let ?tg = "\<lambda>cm. map (\<lambda>m. \<lparr>config = TrimSpace (snd m), contract = fst m,
       enclosing = a_enclosing d, kind = a_kind d, object = a_object d, pos = cpos cm\<rparr>) (matches cm)"
  have grp: "mu_aliases (foldl (\<lambda>mu cm. foldl (?am cm) mu (matches cm)) mu g) = mu_aliases mu
     \<and> map snd (mu_targets (foldl (\<lambda>mu cm. foldl (?am cm) mu (matches cm)) mu g))
         = map snd (mu_targets mu) @ concat (map ?tg g)" for mu g
    by (induction g arbitrary: mu) (simp_all add: add_match_None)
  have "mu_aliases (foldl (\<lambda>mu g. foldl (\<lambda>mu cm. foldl (?am cm) mu (matches cm)) mu g) mu gs)
          = mu_aliases mu
     \<and> map snd (mu_targets (foldl (\<lambda>mu g. foldl (\<lambda>mu cm. foldl (?am cm) mu (matches cm)) mu g) mu gs))
         = map snd (mu_targets mu) @ concat (map (\<lambda>g. concat (map ?tg g)) gs)" for gs
    by (induction gs arbitrary: mu) (simp_all add: grp)
  then show ?thesis using assms by (simp add: contract_closure_def annotation_targets_def)
qed

lemma annotation_targets_Cons:
  "annotation_targets (d # ds) = annotation_targets [d] @ annotation_targets ds"
  by (simp add: annotation_targets_def)

lemma scan_no_alias:
  "\<forall>d \<in> set ds. a_alias_name d = None \<Longrightarrow>
     mu_aliases (foldl contract_closure mu ds) = mu_aliases mu
     \<and> map snd (mu_targets (foldl contract_closure mu ds))
         = map snd (mu_targets mu) @ annotation_targets ds"
proof (induction ds arbitrary: mu)
  case Nil
  show ?case by (simp add: annotation_targets_def)
next
  case (Cons d ds)
  then show ?case
    using contract_closure_None [of d mu] annotation_targets_Cons [of d ds] by simp
qed




section \<open>Properties of the return-type analysis\<close>

lemma objects_put [simp]: "objects (put a s l) = (objects l)[a := s]"
  by (simp add: put_def)

lemma deref_put: "deref (put a s l) b = (if b = a \<and> a < length (objects l) then s else deref l b)"
  by (cases "a < length (objects l)") (auto simp: put_def deref_def nth_list_update list_update_beyond)

lemma deref_put_same [simp]: "a < length (objects l) \<Longrightarrow> deref (put a s l) a = s"
  by (simp add: deref_put)

lemma deref_put_other [simp]: "b \<noteq> a \<Longrightarrow> deref (put a s l) b = deref l b"
  by (simp add: deref_put)

lemma fields_put [simp]:
  "allowed (put a s l) = allowed l" "stats (put a s l) = stats l"
  "target (put a s l) = target l" "work (put a s l) = work l"
  "history (put a s l) = history l @ [(a, deref l a, s)]"
  by (simp_all add: put_def)

lemma markDirty_Suc':
  "markDirty (Suc n) a w l =
     (if settled l (length w) a then Ok l
      else propagate (markDirty n) (dirties (deref (mark a w l) a)) w (mark a w l))"
  by (cases "why (deref l a)") (auto simp: settled_def mark_def Let_def not_less)

declare markDirty.simps(2) [simp del]

lemma length_mark [simp]: "length (objects (mark a w l)) = length (objects l)"
  by (simp add: mark_def Let_def)

lemma fields_mark [simp]:
  "allowed (mark a w l) = allowed l" "stats (mark a w l) = stats l"
  "target (mark a w l) = target l" "work (mark a w l) = work l"
  by (simp_all add: mark_def Let_def)

lemma deref_mark_other [simp]: "b \<noteq> a \<Longrightarrow> deref (mark a w l) b = deref l b"
  by (simp add: mark_def Let_def)

lemma deref_mark_same:
  "a < length (objects l) \<Longrightarrow>
     deref (mark a w l) a =
       (deref l a)\<lparr>why := (case why (deref l a) of None \<Rightarrow> Some w
                              | Some old \<Rightarrow> if length w < length old then Some w else Some old),
                    state := stateDirty\<rparr>"
  by (cases "why (deref l a)") (simp_all add: mark_def Let_def)

lemma dirties_mark [simp]: "dirties (deref (mark a w l) b) = dirties (deref l b)"
  by (cases "b = a"; cases "a < length (objects l)")
     (simp_all add: deref_mark_same, simp_all add: mark_def Let_def deref_put)

text \<open>A function that is dirty with a reason of at most \<open>k\<close> steps is left alone by
  markDirty with a longer reason.\<close>

lemma propagate_settled:
  assumes md: "\<And>b w l l'. md b w l = Ok l' \<Longrightarrow> settled l (length w) a \<Longrightarrow> deref l' a = deref l a"
  shows "propagate md ds w l = Ok l' \<Longrightarrow> settled l (Suc (length w)) a \<Longrightarrow> deref l' a = deref l a"
proof (induction ds arbitrary: l)
  case Nil
  then show ?case by simp
next
  case (Cons d ds)
  obtain chained call where d: "d = (chained, call)" by (cases d)
  from Cons.prems(1) d obtain l1 where
    m: "md chained (\<lparr>Reason = Calls, Value = call\<rparr> # w) l = Ok l1"
    and p: "propagate md ds w l1 = Ok l'"
    by (auto split: res.splits)
  have e: "deref l1 a = deref l a" using md [OF m] Cons.prems(2) by simp
  then have "settled l1 (Suc (length w)) a" using Cons.prems(2) by (simp add: settled_def)
  from Cons.IH [OF p this] e show ?case by simp
qed

lemma markDirty_settled:
  "markDirty n b w l = Ok l' \<Longrightarrow> settled l (length w) a \<Longrightarrow> deref l' a = deref l a"
proof (induction n arbitrary: b w l l')
  case 0
  then show ?case by simp
next
  case (Suc n)
  show ?case
  proof (cases "settled l (length w) b")
    case True
    with Suc.prems show ?thesis by (simp add: markDirty_Suc')
  next
    case False
    with Suc.prems(2) have ne: "a \<noteq> b" by auto
    from False Suc.prems(1)
    have p: "propagate (markDirty n) (dirties (deref (mark b w l) b)) w (mark b w l) = Ok l'"
      by (simp add: markDirty_Suc')
    have s: "settled (mark b w l) (Suc (length w)) a"
      using Suc.prems(2) ne by (auto simp: settled_def)
    have "deref l' a = deref (mark b w l) a"
      using propagate_settled [of "markDirty n" a, OF _ p s] Suc.IH by blast
    then show ?thesis using ne by simp
  qed
qed

lemma md_rel_refl [simp]: "md_rel l l"
  by (simp add: md_rel_def)

lemma md_rel_trans:
  assumes "md_rel l l1" and "md_rel l1 l2"
  shows "md_rel l l2"
  unfolding md_rel_def
proof (intro conjI allI impI)
  fix a old
  assume "why (deref l a) = Some old"
  with assms(1) obtain w1 where w1: "why (deref l1 a) = Some w1" "length w1 \<le> length old"
    unfolding md_rel_def by blast
  with assms(2) obtain w2 where "why (deref l2 a) = Some w2" "length w2 \<le> length w1"
    unfolding md_rel_def by blast
  with w1 show "\<exists>new. why (deref l2 a) = Some new \<and> length new \<le> length old" by auto
next
  fix a
  from assms have "state (deref l1 a) = state (deref l a) \<or> state (deref l1 a) = stateDirty"
    "state (deref l2 a) = state (deref l1 a) \<or> state (deref l2 a) = stateDirty"
    unfolding md_rel_def by blast+
  then show "state (deref l2 a) = state (deref l a) \<or> state (deref l2 a) = stateDirty" by auto
qed (use assms in \<open>simp_all add: md_rel_def\<close>)

lemma md_rel_mark: "md_rel l (mark a w l)"
proof (cases "a < length (objects l)")
  case True
  have "deref (mark a w l) b =
      (if b = a then (deref l a)\<lparr>why := (case why (deref l a) of None \<Rightarrow> Some w
                              | Some old \<Rightarrow> if length w < length old then Some w else Some old),
                    state := stateDirty\<rparr> else deref l b)" for b
    using True by (simp add: deref_mark_same)
  then show ?thesis
    unfolding md_rel_def by (auto split: option.splits)
next
  case False
  then have "deref (mark a w l) b = deref l b" for b
    by (simp add: mark_def Let_def deref_put)
  then show ?thesis by (simp add: md_rel_def)
qed

lemma propagate_rel:
  assumes md: "\<And>b w l l'. md b w l = Ok l' \<Longrightarrow> md_rel l l'"
  shows "propagate md ds w l = Ok l' \<Longrightarrow> md_rel l l'"
proof (induction ds arbitrary: l)
  case Nil
  then show ?case by simp
next
  case (Cons d ds)
  obtain chained call where d: "d = (chained, call)" by (cases d)
  from Cons.prems(1) d obtain l1 where
    m: "md chained (\<lparr>Reason = Calls, Value = call\<rparr> # w) l = Ok l1"
    and p: "propagate md ds w l1 = Ok l'"
    by (auto split: res.splits)
  from md [OF m] Cons.IH [OF p] show ?case by (rule md_rel_trans)
qed

lemma markDirty_rel: "markDirty n b w l = Ok l' \<Longrightarrow> md_rel l l'"
proof (induction n arbitrary: b w l l')
  case 0
  then show ?case by simp
next
  case (Suc n)
  show ?case
  proof (cases "settled l (length w) b")
    case True
    with Suc.prems show ?thesis by (simp add: markDirty_Suc')
  next
    case False
    with Suc.prems
    have p: "propagate (markDirty n) (dirties (deref (mark b w l) b)) w (mark b w l) = Ok l'"
      by (simp add: markDirty_Suc')
    have "md_rel (mark b w l) l'"
      using propagate_rel [of "markDirty n", OF _ p] Suc.IH by blast
    with md_rel_mark [of l b w] show ?thesis by (rule md_rel_trans)
  qed
qed

lemma markDirty_why:
  assumes m: "markDirty n a w l = Ok l'" and a: "a < length (objects l)"
  shows "state (deref l' a) = stateDirty
     \<and> why (deref l' a) = (case why (deref l a) of None \<Rightarrow> Some w
                            | Some old \<Rightarrow> if length w < length old then Some w else Some old)"
proof (cases n)
  case 0
  with m show ?thesis by simp
next
  case (Suc k)
  show ?thesis
  proof (cases "settled l (length w) a")
    case True
    with m Suc have "l' = l" by (simp add: markDirty_Suc')
    with True show ?thesis by (auto simp: settled_def)
  next
    case False
    with m Suc
    have p: "propagate (markDirty k) (dirties (deref (mark a w l) a)) w (mark a w l) = Ok l'"
      by (simp add: markDirty_Suc')
    have s: "settled (mark a w l) (Suc (length w)) a"
      using a by (cases "why (deref l a)") (auto simp: settled_def deref_mark_same)
    have "deref l' a = deref (mark a w l) a"
      using propagate_settled [of "markDirty k" a, OF _ p s] markDirty_settled by blast
    then show ?thesis using a by (simp add: deref_mark_same)
  qed
qed

lemma propagate_dependents:
  assumes md: "\<And>b w l l'. md b w l = Ok l' \<Longrightarrow> md_rel l l'"
    and mw: "\<And>b w l l'. md b w l = Ok l' \<Longrightarrow> b < length (objects l) \<Longrightarrow>
        \<exists>new. why (deref l' b) = Some new \<and> length new \<le> length w"
  shows "propagate md ds w l = Ok l' \<Longrightarrow>
     \<forall>(b, call) \<in> set ds. b < length (objects l) \<longrightarrow>
        (\<exists>new. why (deref l' b) = Some new \<and> length new \<le> Suc (length w))"
proof (induction ds arbitrary: l)
  case Nil
  then show ?case by simp
next
  case (Cons d ds)
  obtain chained call where d: "d = (chained, call)" by (cases d)
  from Cons.prems(1) d obtain l1 where
    m: "md chained (\<lparr>Reason = Calls, Value = call\<rparr> # w) l = Ok l1"
    and p: "propagate md ds w l1 = Ok l'"
    by (auto split: res.splits)
  have r1: "md_rel l l1" by (rule md [OF m])
  have r2: "md_rel l1 l'" using md p by (rule propagate_rel)
  have len: "length (objects l1) = length (objects l)" using r1 by (simp add: md_rel_def)
  have hd: "chained < length (objects l) \<longrightarrow>
        (\<exists>new. why (deref l' chained) = Some new \<and> length new \<le> Suc (length w))"
  proof
    assume "chained < length (objects l)"
    from mw [OF m this] obtain w1 where
      w1: "why (deref l1 chained) = Some w1" "length w1 \<le> Suc (length w)" by auto
    with r2 obtain w2 where "why (deref l' chained) = Some w2" "length w2 \<le> length w1"
      unfolding md_rel_def by blast
    with w1 show "\<exists>new. why (deref l' chained) = Some new \<and> length new \<le> Suc (length w)"
      by auto
  qed
  from Cons.IH [OF p] len hd d show ?case by auto
qed

lemma frame_refl [simp]: "frame l l"
  by (simp add: frame_def)

lemma frame_trans: "frame l l1 \<Longrightarrow> frame l1 l2 \<Longrightarrow> frame l l2"
  unfolding frame_def by (auto simp: order.trans) 

lemma md_rel_frame: "md_rel l l' \<Longrightarrow> frame l l'"
  unfolding md_rel_def frame_def by (auto simp: eq_commute) (metis state.distinct(5))

lemma invariant_put:
  assumes i: "invariant S P l" and a: "0 < a" "a < length (objects l)"
    and c: "cell_ok (allowed l) S a s"
    and f: "fn s = fn (deref l a)"
    and d: "deps_ok S l s"
    and u: "state s = stateUnknown \<longrightarrow> state (deref l a) = stateUnknown"
    and p: "permitted (a, deref l a, s)"
  shows "invariant S P (put a s l)"
proof -
  have fn: "fn (deref (put a s l) b) = fn (deref l b)" for b
    using f by (simp add: deref_put)
  have dp: "deps_ok S (put a s l) x = deps_ok S l x" for x
    by (simp add: deps_ok_def fn)
  show ?thesis
    unfolding invariant_def
  proof (intro conjI allI impI ballI)
    show "objects (put a s l) \<noteq> []" using i by (simp add: invariant_def)
    show "deref (put a s l) 0 = clean" using i a by (simp add: invariant_def)
  next
    fix b assume "b < length (objects (put a s l))"
    then have b: "b < length (objects l)" by simp
    show "cell_ok (allowed (put a s l)) S b (deref (put a s l) b)"
      using i b c by (cases "b = a") (simp_all add: invariant_def deref_put)
    show "deps_ok S (put a s l) (deref (put a s l) b)"
      using i b d a by (cases "b = a") (simp_all add: dp invariant_def)
  next
    fix g b assume "map_of (stats (put a s l)) g = Some b"
    then have m: "map_of (stats l) g = Some b" by simp
    with i have b: "b < length (objects l)" "b = 0 \<or> fn (deref l b) = g"
      "state (deref l b) = stateUnknown \<longrightarrow> b \<in> set (work l) \<union> P"
      by (auto simp: invariant_def)
    show "b < length (objects (put a s l))" using b by simp
    show "b = 0 \<or> fn (deref (put a s l) b) = g" using b by (simp add: fn)
    show "b \<in> set (work (put a s l)) \<union> P" if "state (deref (put a s l) b) = stateUnknown"
      using that b u a by (cases "b = a") (simp_all add: deref_put)
  next
    fix b assume "b \<in> set (work (put a s l))"
    with i show "0 < b" "b < length (objects (put a s l))" by (simp_all add: invariant_def)
  next
    fix e assume "e \<in> set (history (put a s l))"
    with i p show "permitted e" by (auto simp: invariant_def)
  qed
qed

lemma frame_put:
  assumes "fn s = fn (deref l a)" "returns s = returns (deref l a)"
    "targetIndexes s = targetIndexes (deref l a)" "state s \<noteq> stateUnknown"
  shows "frame l (put a s l)"
  using assms by (simp add: frame_def deref_put)

lemma state_update_same: "state s = v \<Longrightarrow> s\<lparr>state := v\<rparr> = s"
  by simp

lemma deps_ok_put:
  assumes "fn s = fn (deref l a)"
  shows "deps_ok S (put a s l) x = deps_ok S l x"
proof -
  have "fn (deref (put a s l) b) = fn (deref l b)" for b
    using assms by (simp add: deref_put)
  then show ?thesis by (simp add: deps_ok_def)
qed

lemma invariant_mark:
  assumes i: "invariant S P l" and a: "0 < a" "a < length (objects l)"
    and ns: "fn (deref l a) \<notin> S"
  shows "invariant S P (mark a w l)"
proof -
  let ?old = "deref l a"
  let ?ch = "(case why ?old of None \<Rightarrow> True | Some old \<Rightarrow> length w < length old)"
  let ?l1 = "if ?ch then put a (?old\<lparr>why := Some w\<rparr>) l else l"
  from i a have c: "cell_ok (allowed l) S a ?old" and d: "deps_ok S l ?old"
    by (auto simp: invariant_def)
  have i1: "invariant S P ?l1"
  proof (cases ?ch)
    case False
    then show ?thesis using i by simp
  next
    case True
    have "invariant S P (put a (?old\<lparr>why := Some w\<rparr>) l)"
    proof (rule invariant_put [OF i a])
      show "cell_ok (allowed l) S a (?old\<lparr>why := Some w\<rparr>)"
        using c ns by (simp add: cell_ok_def)
      show "deps_ok S l (?old\<lparr>why := Some w\<rparr>)" using d by (simp add: deps_ok_def)
      show "permitted (a, ?old, ?old\<lparr>why := Some w\<rparr>)"
        using c a True by (cases "why ?old") (auto simp: permitted_def cell_ok_def)
    qed simp_all
    with True show ?thesis by simp
  qed
  have len1: "length (objects ?l1) = length (objects l)" by simp
  have al1: "allowed ?l1 = allowed l" by simp
  have old1: "deref ?l1 a = (if ?ch then ?old\<lparr>why := Some w\<rparr> else ?old)"
    using a by simp
  have "invariant S P (put a ((deref ?l1 a)\<lparr>state := stateDirty\<rparr>) ?l1)"
  proof (rule invariant_put [OF i1 a(1)])
    show "a < length (objects ?l1)" using a by simp
    show "cell_ok (allowed ?l1) S a ((deref ?l1 a)\<lparr>state := stateDirty\<rparr>)"
      using c ns a by (cases "why ?old") (auto simp: cell_ok_def)
    show "deps_ok S ?l1 ((deref ?l1 a)\<lparr>state := stateDirty\<rparr>)"
    proof (cases ?ch)
      case True
      then have "deps_ok S ?l1 x = deps_ok S l x" for x by (simp add: deps_ok_put)
      moreover have "deps_ok S l ((deref ?l1 a)\<lparr>state := stateDirty\<rparr>)"
        using d a True by (simp add: deps_ok_def)
      ultimately show ?thesis by blast
    next
      case False
      then show ?thesis using d by (simp add: deps_ok_def)
    qed
    show "permitted (a, deref ?l1 a, (deref ?l1 a)\<lparr>state := stateDirty\<rparr>)"
      using c a by (auto simp: permitted_def cell_ok_def)
  qed simp_all
  then show ?thesis by (simp add: mark_def Let_def)
qed

lemma after_mono: "after r st Q \<Longrightarrow> (\<And>l. Q l \<Longrightarrow> Q' l) \<Longrightarrow> after r st Q'"
  by (cases r) auto

lemma propagate_invariant:
  assumes md: "\<And>b w l. invariant S P l \<Longrightarrow> 0 < b \<Longrightarrow> b < length (objects l) \<Longrightarrow>
       fn (deref l b) \<notin> S \<Longrightarrow> after (md b w l) (\<lambda>l. l) (\<lambda>l'. invariant S P l' \<and> md_rel l l')"
  shows "invariant S P l \<Longrightarrow>
     \<forall>(b, c) \<in> set ds. 0 < b \<and> b < length (objects l) \<and> fn (deref l b) \<notin> S \<Longrightarrow>
     after (propagate md ds w l) (\<lambda>l. l) (\<lambda>l'. invariant S P l' \<and> md_rel l l')"
proof (induction ds arbitrary: l)
  case Nil
  then show ?case by simp
next
  case (Cons d ds)
  obtain chained call where d: "d = (chained, call)" by (cases d)
  from Cons.prems(2) d have ch: "0 < chained" "chained < length (objects l)"
    "fn (deref l chained) \<notin> S" by auto
  note m = md [OF Cons.prems(1) ch, of "\<lparr>Reason = Calls, Value = call\<rparr> # w"]
  show ?case
  proof (cases "md chained (\<lparr>Reason = Calls, Value = call\<rparr> # w) l")
    case (Ok l1)
    with m have i1: "invariant S P l1" and r1: "md_rel l l1" by auto
    have "\<forall>(b, c) \<in> set ds. 0 < b \<and> b < length (objects l1) \<and> fn (deref l1 b) \<notin> S"
      using Cons.prems(2) r1 by (auto simp: md_rel_def)
    from Cons.IH [OF i1 this]
    have "after (propagate md ds w l1) (\<lambda>l. l) (\<lambda>l'. invariant S P l' \<and> md_rel l1 l')" .
    then have "after (propagate md ds w l1) (\<lambda>l. l) (\<lambda>l'. invariant S P l' \<and> md_rel l l')"
      by (rule after_mono) (use r1 md_rel_trans in blast)
    with Ok d show ?thesis by simp
  next
    case (Panic p l1)
    with m d show ?thesis by simp
  next
    case OutOfFuel
    with d show ?thesis by simp
  qed
qed

lemma markDirty_invariant:
  "invariant S P l \<Longrightarrow> 0 < a \<Longrightarrow> a < length (objects l) \<Longrightarrow> fn (deref l a) \<notin> S \<Longrightarrow>
     after (markDirty n a w l) (\<lambda>l. l) (\<lambda>l'. invariant S P l' \<and> md_rel l l')"
proof (induction n arbitrary: a w l)
  case 0
  then show ?case by simp
next
  case (Suc n)
  show ?case
  proof (cases "settled l (length w) a")
    case True
    with Suc.prems show ?thesis by (simp add: markDirty_Suc')
  next
    case False
    let ?l2 = "mark a w l"
    have i2: "invariant S P ?l2" using Suc.prems by (intro invariant_mark)
    have r2: "md_rel l ?l2" by (rule md_rel_mark)
    from Suc.prems(1,3) have "deps_ok S l (deref l a)" by (simp add: invariant_def)
    then have ds: "\<forall>(b, c) \<in> set (dirties (deref ?l2 a)).
        0 < b \<and> b < length (objects ?l2) \<and> fn (deref ?l2 b) \<notin> S"
      using Suc.prems(4) r2 by (auto simp: deps_ok_def md_rel_def)
    have "after (propagate (markDirty n) (dirties (deref ?l2 a)) w ?l2) (\<lambda>l. l)
            (\<lambda>l'. invariant S P l' \<and> md_rel ?l2 l')"
      using Suc.IH i2 ds by (intro propagate_invariant) auto
    then have "after (propagate (markDirty n) (dirties (deref ?l2 a)) w ?l2) (\<lambda>l. l)
            (\<lambda>l'. invariant S P l' \<and> md_rel l l')"
      by (rule after_mono) (use r2 md_rel_trans in blast)
    with False show ?thesis by (simp add: markDirty_Suc')
  qed
qed

lemma new_stat_eq:
  "new_stat l f = (length (objects l),
     l\<lparr>objects := objects l @ [fresh f], stats := AList.update f (length (objects l)) (stats l),
       work := work l @ [length (objects l)]\<rparr>)"
  by (simp add: new_stat_def fresh_def Let_def)

lemma deps_ok_grow:
  assumes "deps_ok S l x" and "length (objects l) \<le> length (objects l')"
    and "\<And>b. b < length (objects l) \<Longrightarrow> fn (deref l' b) = fn (deref l b)"
  shows "deps_ok S l' x"
  using assms unfolding deps_ok_def by fastforce

lemma rets_ok_Nil [simp]: "rets_ok al S [] idx" "rets_ok al S rets []"
  by (simp_all add: rets_ok_def list_all_iff)

lemma invariant_new_stat:
  assumes i: "invariant S P l"
  shows "invariant S P (snd (new_stat l f))" (is "invariant S P ?l1")
proof -
  let ?a = "length (objects l)"
  have l1: "?l1 = l\<lparr>objects := objects l @ [fresh f], stats := AList.update f ?a (stats l),
       work := work l @ [?a]\<rparr>" by (simp add: new_stat_eq)
  from i have ne: "objects l \<noteq> []" by (simp add: invariant_def)
  then have a0: "0 < ?a" by simp
  have old: "deref ?l1 b = deref l b" if "b < ?a" for b
    using that by (simp add: l1 deref_def nth_append)
  have new: "deref ?l1 ?a = fresh f" by (simp add: l1 deref_def)
  have len: "length (objects ?l1) = Suc ?a" by (simp add: l1)
  have al: "allowed ?l1 = allowed l" by (simp add: l1)
  show ?thesis
    unfolding invariant_def
  proof (intro conjI allI impI ballI)
    show "objects ?l1 \<noteq> []" by (simp add: l1)
    show "deref ?l1 0 = clean" using i a0 old by (simp add: invariant_def)
  next
    fix b assume "b < length (objects ?l1)"
    then consider "b < ?a" | "b = ?a" using len by force
    then show "cell_ok (allowed ?l1) S b (deref ?l1 b)"
    proof cases
      case 1
      then show ?thesis using i old al by (simp add: invariant_def)
    next
      case 2
      then show ?thesis using new a0 by (simp add: cell_ok_def fresh_def)
    qed
    from \<open>b < length (objects ?l1)\<close> consider "b < ?a" | "b = ?a" using len by force
    then show "deps_ok S ?l1 (deref ?l1 b)"
    proof cases
      case 1
      with i have "deps_ok S l (deref l b)" by (simp add: invariant_def)
      then have "deps_ok S ?l1 (deref l b)"
        by (rule deps_ok_grow) (simp_all add: len old)
      with 1 show ?thesis by (simp add: old)
    next
      case 2
      then show ?thesis using new by (simp add: deps_ok_def fresh_def)
    qed
  next
    fix g b assume "map_of (stats ?l1) g = Some b"
    then have m: "((map_of (stats l))(f \<mapsto> ?a)) g = Some b"
      by (simp add: l1 update_conv')
    show "b < length (objects ?l1)"
      using m i len by (cases "g = f") (auto simp: invariant_def less_Suc_eq)
    show "b = 0 \<or> fn (deref ?l1 b) = g"
    proof (cases "g = f")
      case True
      with m have "b = ?a" by simp
      with True new show ?thesis by (simp add: fresh_def)
    next
      case False
      with m i have "b < ?a" "b = 0 \<or> fn (deref l b) = g" by (auto simp: invariant_def)
      then show ?thesis by (auto simp: old)
    qed
    show "b \<in> set (work ?l1) \<union> P" if u: "state (deref ?l1 b) = stateUnknown"
    proof (cases "g = f")
      case True
      with m have "b = ?a" by simp
      then show ?thesis by (simp add: l1)
    next
      case False
      with m i have b: "b < ?a"
        "state (deref l b) = stateUnknown \<longrightarrow> b \<in> set (work l) \<union> P"
        by (auto simp: invariant_def)
      from u b(1) have "state (deref l b) = stateUnknown" by (simp add: old)
      with b(2) have "b \<in> set (work l) \<union> P" by simp
      then show ?thesis by (auto simp: l1)
    qed
  next
    fix b assume "b \<in> set (work ?l1)"
    then have "b \<in> set (work l) \<or> b = ?a" by (auto simp: l1)
    with i a0 show "0 < b" "b < length (objects ?l1)"
      by (auto simp: invariant_def len less_Suc_eq)
  next
    fix e assume "e \<in> set (history ?l1)"
    with i show "permitted e" by (simp add: l1 invariant_def)
  qed
qed

lemma frame_new_stat: "frame l (snd (new_stat l f))"
  by (simp add: new_stat_eq frame_def deref_def nth_append)

lemma invariant_stats_clean:
  assumes i: "invariant S P l"
  shows "invariant S P (l\<lparr>stats := AList.update f 0 (stats l)\<rparr>)" (is "invariant S P ?l1")
proof -
  have d: "deref ?l1 b = deref l b" for b by (simp add: deref_def)
  have dp: "deps_ok S ?l1 x = deps_ok S l x" for x by (simp add: deps_ok_def d)
  from i have c0: "state (deref l 0) = stateClean" "objects l \<noteq> []"
    by (simp_all add: invariant_def clean_def)
  show ?thesis
    unfolding invariant_def
  proof (intro conjI allI impI ballI)
    fix g b assume "map_of (stats ?l1) g = Some b"
    then have m: "((map_of (stats l))(f \<mapsto> 0)) g = Some b" by (simp add: update_conv')
    show "b < length (objects ?l1)"
      using m i c0 by (cases "g = f") (auto simp: invariant_def)
    show "b = 0 \<or> fn (deref ?l1 b) = g"
      using m i by (cases "g = f") (auto simp: invariant_def d)
    show "b \<in> set (work ?l1) \<union> P" if "state (deref ?l1 b) = stateUnknown"
      using that m i c0 by (cases "g = f") (auto simp: invariant_def d)
  qed (use i in \<open>simp_all add: invariant_def d dp\<close>)
qed

lemma permitted_unknown: "state old = stateUnknown \<Longrightarrow> permitted (a, old, new)"
  by (simp add: permitted_def)

lemma permitted_analyzing: "state old = stateAnalyzing \<Longrightarrow> permitted (a, old, new)"
  by (simp add: permitted_def)

lemma extract_invariant:
  assumes i: "invariant S P l" and cl: "closed pgm (target l) (allowed l) S"
    and m: "map_of (stats l) f = Some a" and a0: "0 < a"
    and u: "state (deref l a) = stateUnknown" and fa: "fn (deref l a) = f"
    and ti: "targetIndexes (deref l a) = []"
  shows "invariant S P (extract_pass pgm l f)
     \<and> length (objects (extract_pass pgm l f)) = length (objects l)
     \<and> allowed (extract_pass pgm l f) = allowed l \<and> target (extract_pass pgm l f) = target l
     \<and> (\<forall>b. b \<noteq> a \<longrightarrow> deref (extract_pass pgm l f) b = deref l b)
     \<and> fn (deref (extract_pass pgm l f) a) = f"
proof -
  let ?res = "f_results (function_at pgm f)"
  let ?idx = "target_indexes (target l) ?res"
  let ?R = "return_instrs (f_blocks (function_at pgm f))"
  from i m have al: "a < length (objects l)" by (simp add: invariant_def)
  show ?thesis
  proof (cases "?res = [] \<or> ?idx = []")
    case True
    then have e: "extract_pass pgm l f = l\<lparr>stats := AList.update f 0 (stats l)\<rparr>"
      by (auto simp: extract_pass_def Let_def)
    show ?thesis
      unfolding e using invariant_stats_clean [OF i, of f] fa by (simp add: deref_def)
  next
    case False
    let ?l2 = "put a ((deref l a)\<lparr>returns := ?R\<rparr>) l"
    let ?l3 = "put a ((deref ?l2 a)\<lparr>targetIndexes := ?idx\<rparr>) ?l2"
    from False m have e: "extract_pass pgm l f = ?l3"
      by (simp add: extract_pass_def Let_def)
    from i al have c: "cell_ok (allowed l) S a (deref l a)" and d: "deps_ok S l (deref l a)"
      by (auto simp: invariant_def)
    have i2: "invariant S P ?l2"
    proof (rule invariant_put [OF i a0 al])
      show "cell_ok (allowed l) S a ((deref l a)\<lparr>returns := ?R\<rparr>)"
        using c u a0 ti by (simp add: cell_ok_def)
      show "deps_ok S l ((deref l a)\<lparr>returns := ?R\<rparr>)" using d by (simp add: deps_ok_def)
      show "permitted (a, deref l a, (deref l a)\<lparr>returns := ?R\<rparr>)"
        using u by (rule permitted_unknown)
    qed (simp_all add: u)
    have d2: "deref ?l2 a = (deref l a)\<lparr>returns := ?R\<rparr>" using al by simp
    have i3: "invariant S P ?l3"
    proof (rule invariant_put [OF i2 a0])
      show "a < length (objects ?l2)" using al by simp
      have "rets_ok (allowed l) S ?R ?idx" if "f \<in> S"
        using cl that by (simp add: closed_def good_fn_def)
      then show "cell_ok (allowed ?l2) S a ((deref ?l2 a)\<lparr>targetIndexes := ?idx\<rparr>)"
        using u a0 fa by (simp add: cell_ok_def d2)
      show "deps_ok S ?l2 ((deref ?l2 a)\<lparr>targetIndexes := ?idx\<rparr>)"
        using d by (simp add: d2 deps_ok_put) (simp add: deps_ok_def)
      show "permitted (a, deref ?l2 a, (deref ?l2 a)\<lparr>targetIndexes := ?idx\<rparr>)"
        using u by (intro permitted_unknown) (simp add: d2)
    qed (simp_all add: d2 u)
    show ?thesis
      unfolding e using i3 fa al by (simp add: d2 deref_put)
  qed
qed

lemma stat_invariant:
  assumes i: "invariant S P l" and cl: "closed pgm (target l) (allowed l) S"
    and s: "stat pgm l f = (a, l')"
  shows "invariant S P l' \<and> frame l l' \<and> a < length (objects l')
     \<and> (a = 0 \<or> fn (deref l' a) = f)"
proof (cases "map_of (stats l) f")
  case (Some b)
  with s have "a = b" "l' = l" by (simp_all add: stat_def)
  with i Some show ?thesis by (simp add: invariant_def)
next
  case None
  let ?l1 = "snd (new_stat l f)"
  let ?a = "length (objects l)"
  from None s have a: "a = ?a" and l': "l' = extract_pass pgm ?l1 f"
    by (auto simp: stat_def new_stat_eq)
  have i1: "invariant S P ?l1" using i by (rule invariant_new_stat)
  have l1: "?l1 = l\<lparr>objects := objects l @ [fresh f], stats := AList.update f ?a (stats l),
       work := work l @ [?a]\<rparr>" by (simp add: new_stat_eq)
  from i have "objects l \<noteq> []" by (simp add: invariant_def)
  then have a0: "0 < ?a" by simp
  have new: "deref ?l1 ?a = fresh f" by (simp add: l1 deref_def)
  have m: "map_of (stats ?l1) f = Some ?a" by (simp add: l1 update_conv')
  have cl1: "closed pgm (target ?l1) (allowed ?l1) S" using cl by (simp add: l1)
  from extract_invariant [OF i1 cl1 m a0] new
  have e: "invariant S P l'" "length (objects l') = length (objects ?l1)"
    "allowed l' = allowed ?l1" "target l' = target ?l1"
    "\<forall>b. b \<noteq> ?a \<longrightarrow> deref l' b = deref ?l1 b" "fn (deref l' ?a) = f"
    unfolding l' by (simp_all add: fresh_def)
  have old1: "deref ?l1 b = deref l b" if "b < ?a" for b
    using that by (simp add: l1 deref_def nth_append)
  have old: "deref l' b = deref l b" if "b < ?a" for b
    using that e(5) old1 by simp
  have len1: "length (objects ?l1) = Suc ?a" by (simp add: l1)
  have "frame l l'"
    unfolding frame_def using e(2,3,4) old len1 by (simp add: l1)
  moreover have "a < length (objects l')" using e(2) a by (simp add: l1)
  ultimately show ?thesis using e(1,6) a by simp
qed

lemma markDirty_leaf:
  assumes "invariant S P l" "0 < a" "a < length (objects l)" "fn (deref l a) \<notin> S"
  shows "after (case markDirty n a w l of Ok l1 \<Rightarrow> Ok (visited, l1)
                | Panic p l1 \<Rightarrow> Panic p l1 | OutOfFuel \<Rightarrow> OutOfFuel) snd
           (\<lambda>l'. invariant S P l' \<and> frame l l')"
  using markDirty_invariant [OF assms, of n w]
  by (cases "markDirty n a w l") (auto dest: md_rel_frame)

lemma allowed_leaf:
  assumes i: "invariant S P l" and a: "0 < a" "a < length (objects l)"
    and ok: "fn (deref l a) \<in> S \<longrightarrow> isAllowed (allowed l) t = Some True"
  shows "after (case isAllowed (allowed l) t of
                  None \<Rightarrow> Panic p l
                | Some True \<Rightarrow> Ok (visited', l)
                | Some False \<Rightarrow>
                    (case markDirty n a w l of Ok l1 \<Rightarrow> Ok (visited', l1)
                     | Panic p l1 \<Rightarrow> Panic p l1 | OutOfFuel \<Rightarrow> OutOfFuel)) snd
           (\<lambda>l'. invariant S P l' \<and> frame l l')"
proof (cases "isAllowed (allowed l) t")
  case None
  then show ?thesis using i by simp
next
  case (Some b)
  show ?thesis
  proof (cases b)
    case True
    with Some i show ?thesis by simp
  next
    case False
    with Some ok have "fn (deref l a) \<notin> S" by auto
    from markDirty_leaf [OF i a this] Some False show ?thesis by simp
  qed
qed

lemma set_update_subset: "set (AList.update k v xs) \<subseteq> insert (k, v) (set xs)"
  by (induction xs) auto

lemma decide_call:
  assumes an: "\<And>b l. invariant S P l \<Longrightarrow> allowed l = al \<Longrightarrow> target l = tg \<Longrightarrow>
      b < length (objects l) \<Longrightarrow> after (an b l) (\<lambda>l. l) (\<lambda>l'. invariant S P l' \<and> frame l l')"
    and cl: "closed pgm tg al S"
    and i: "invariant S P l" and al: "allowed l = al" and tg: "target l = tg"
    and a: "0 < a" "a < length (objects l)"
    and ok: "fn (deref l a) \<in> S \<longrightarrow> ok_val al S (Call i t callee)"
  shows "after (decide pgm n an a (Call i t callee) visited l) snd
           (\<lambda>l'. invariant S P l' \<and> frame l l')"
proof (cases "i \<in> visited")
  case True
  with i show ?thesis by simp
next
  case ns: False
  show ?thesis
  proof (cases callee)
    case None
    with ok have "fn (deref l a) \<notin> S" by auto
    from markDirty_leaf [OF i a this] None ns show ?thesis by simp
  next
    case (Some f)
    obtain nxt l1 where st: "stat pgm l f = (nxt, l1)" by (cases "stat pgm l f")
    from stat_invariant [OF i _ st] cl al tg
    have i1: "invariant S P l1" and f1: "frame l l1" and n1: "nxt < length (objects l1)"
      and fn1: "nxt = 0 \<or> fn (deref l1 nxt) = f" by simp_all
    from f1 al tg have al1: "allowed l1 = al" and tg1: "target l1 = tg" by (simp_all add: frame_def)
    note an1 = an [OF i1 al1 tg1 n1]
    show ?thesis
    proof (cases "an nxt l1")
      case OutOfFuel
      with Some ns st show ?thesis by simp
    next
      case (Panic p l2)
      with an1 f1 have "invariant S P l2 \<and> frame l l2" by (auto intro: frame_trans)
      with Panic Some ns st show ?thesis by simp
    next
      case (Ok l2)
      with an1 have i2: "invariant S P l2" and f12: "frame l1 l2" by auto
      from f1 f12 have f2: "frame l l2" by (rule frame_trans)
      from f2 a have a2: "a < length (objects l2)" and fa2: "fn (deref l2 a) = fn (deref l a)"
        by (auto simp: frame_def)
      from f12 n1 have n2: "nxt < length (objects l2)"
        and fn2: "fn (deref l2 nxt) = fn (deref l1 nxt)" by (auto simp: frame_def)
      have good_next: "nxt \<noteq> 0 \<Longrightarrow> fn (deref l a) \<in> S \<Longrightarrow> fn (deref l2 nxt) \<in> S"
        using ok Some fn1 fn2 by auto
      from i2 have c0: "state (deref l2 0) = stateClean" by (simp add: invariant_def clean_def)
      from i2 n2 have cn: "cell_ok (allowed l2) S nxt (deref l2 nxt)"
        and dn: "deps_ok S l2 (deref l2 nxt)" by (auto simp: invariant_def)
      show ?thesis
      proof (cases "state (deref l2 nxt)")
        case stateClean
        with Ok Some ns st i2 f2 show ?thesis by simp
      next
        case stateDirty
        then have "nxt \<noteq> 0" using c0 by (intro notI) simp
        with good_next cn stateDirty have nS: "fn (deref l2 a) \<notin> S"
          by (auto simp: cell_ok_def fa2)
        let ?w = "\<lparr>Reason = Calls, Value = i\<rparr> # (case why (deref l2 nxt) of None \<Rightarrow> [] | Some w \<Rightarrow> w)"
        from markDirty_leaf [OF i2 a(1) a2 nS, where n = n and w = ?w and visited = "insert i visited"]
        have "after (case markDirty n a ?w l2 of Ok l1 \<Rightarrow> Ok (insert i visited, l1)
                | Panic p l1 \<Rightarrow> Panic p l1 | OutOfFuel \<Rightarrow> OutOfFuel) snd
                (\<lambda>l'. invariant S P l' \<and> frame l l')"
          by (rule after_mono) (use f2 frame_trans in blast)
        with Ok Some ns st stateDirty show ?thesis by simp
      next
        case stateUnknown
        let ?s = "(deref l2 nxt)\<lparr>dirties := AList.update a i (dirties (deref l2 nxt))\<rparr>"
        have n0: "nxt \<noteq> 0" using c0 stateUnknown by (intro notI) simp
        have "invariant S P (put nxt ?s l2)"
        proof (rule invariant_put [OF i2 _ n2])
          show "0 < nxt" using n0 by simp
          show "cell_ok (allowed l2) S nxt ?s" using cn by (simp add: cell_ok_def)
          show "deps_ok S l2 ?s"
            using dn a(1) a2 good_next n0 set_update_subset [of a i "dirties (deref l2 nxt)"]
            by (auto simp: deps_ok_def fa2)
          show "permitted (nxt, deref l2 nxt, ?s)" using stateUnknown by (rule permitted_unknown)
        qed simp_all
        moreover have "frame l2 (put nxt ?s l2)"
          using stateUnknown n2 by (simp add: frame_def deref_put)
        ultimately show ?thesis
          using Ok Some ns st stateUnknown f2 by (auto intro: frame_trans)
      next
        case stateAnalyzing
        let ?s = "(deref l2 nxt)\<lparr>dirties := AList.update a i (dirties (deref l2 nxt))\<rparr>"
        have n0: "nxt \<noteq> 0" using c0 stateAnalyzing by (intro notI) simp
        have "invariant S P (put nxt ?s l2)"
        proof (rule invariant_put [OF i2 _ n2])
          show "0 < nxt" using n0 by simp
          show "cell_ok (allowed l2) S nxt ?s" using cn by (simp add: cell_ok_def)
          show "deps_ok S l2 ?s"
            using dn a(1) a2 good_next n0 set_update_subset [of a i "dirties (deref l2 nxt)"]
            by (auto simp: deps_ok_def fa2)
          show "permitted (nxt, deref l2 nxt, ?s)" using stateAnalyzing by (rule permitted_analyzing)
        qed simp_all
        moreover have "frame l2 (put nxt ?s l2)"
          using stateAnalyzing n2 by (simp add: frame_def deref_put)
        ultimately show ?thesis
          using Ok Some ns st stateAnalyzing f2 by (auto intro: frame_trans)
      qed
    qed
  qed
qed

lemma decide_invariant:
  shows "an_ok S P al tg an \<Longrightarrow> closed pgm tg al S \<Longrightarrow>
      invariant S P l \<Longrightarrow> allowed l = al \<Longrightarrow> target l = tg \<Longrightarrow> 0 < a \<Longrightarrow>
      a < length (objects l) \<Longrightarrow> (fn (deref l a) \<in> S \<longrightarrow> ok_val al S v) \<Longrightarrow>
      after (decide pgm n an a v visited l) snd (\<lambda>l'. invariant S P l' \<and> frame l l')"
    and "an_ok S P al tg an \<Longrightarrow> closed pgm tg al S \<Longrightarrow>
      invariant S P l \<Longrightarrow> allowed l = al \<Longrightarrow> target l = tg \<Longrightarrow> 0 < a \<Longrightarrow>
      a < length (objects l) \<Longrightarrow> (fn (deref l a) \<in> S \<longrightarrow> list_all (ok_val al S) vs) \<Longrightarrow>
      after (decide_edges pgm n an a vs visited l) snd (\<lambda>l'. invariant S P l' \<and> frame l l')"
proof (induction pgm n an a v visited l and pgm n an a vs visited l rule: decide_decide_edges.induct)
  case (1 pgm n an a i t callee visited l)
  show ?case
    by (rule decide_call [OF _ "1.prems"(2-)]) (use "1.prems"(1) in \<open>simp add: an_ok_def\<close>)
next
  case (2 pgm n an a i t isNil visited l)
  show ?case
  proof (cases "i \<in> visited \<or> isNil")
    case True
    with 2 show ?thesis by auto
  next
    case False
    have "fn (deref l a) \<in> S \<longrightarrow> isAllowed (allowed l) t = Some True"
      using 2 False by auto
    from allowed_leaf [OF "2.prems"(3,6,7) this] False show ?thesis
      by simp
  qed
next
  case (3 pgm n an a i t tuple visited l)
  then show ?case by (cases "i \<in> visited") auto
next
  case (4 pgm n an a i t x visited l)
  then show ?case by (cases "i \<in> visited") auto
next
  case (5 pgm n an a i t edges visited l)
  then show ?case by (cases "i \<in> visited") auto
next
  case (6 pgm n an a i t asserted visited l)
  show ?case
  proof (cases "i \<in> visited")
    case True
    with 6 show ?thesis by auto
  next
    case False
    have "fn (deref l a) \<in> S \<longrightarrow> isAllowed (allowed l) asserted = Some True"
      using 6 by auto
    from allowed_leaf [OF "6.prems"(3,6,7) this] False show ?thesis
      by simp
  qed
next
  case (7 pgm n an a i t op x visited l)
  then show ?case by (cases "i \<in> visited"; cases "op = MUL") auto
next
  case (8 pgm n an a i t visited l)
  show ?case
  proof (cases "i \<in> visited")
    case True
    with 8 show ?thesis by auto
  next
    case False
    have "fn (deref l a) \<in> S \<longrightarrow> isAllowed (allowed l) t = Some True"
      using 8 by auto
    from allowed_leaf [OF "8.prems"(3,6,7) this] False show ?thesis
      by simp
  qed
next
  case (9 pgm n an a visited l)
  then show ?case by simp
next
  case (10 pgm n an a edge edges visited l)
  from "10.prems" have e: "fn (deref l a) \<in> S \<longrightarrow> ok_val al S edge"
    and es: "fn (deref l a) \<in> S \<longrightarrow> list_all (ok_val al S) edges" by auto
  note d = "10.IH"(1) [OF "10.prems"(1-7) e]
  show ?case
  proof (cases "decide pgm n an a edge visited l")
    case OutOfFuel
    then show ?thesis by simp
  next
    case (Panic p l1)
    with d show ?thesis by simp
  next
    case (Ok x)
    obtain visited1 l1 where x: "x = (visited1, l1)" by (cases x)
    with Ok d have i1: "invariant S P l1" and f1: "frame l l1" by auto
    from f1 "10.prems" have p1: "allowed l1 = al" "target l1 = tg" "a < length (objects l1)"
      "fn (deref l1 a) = fn (deref l a)" by (auto simp: frame_def)
    have "after (decide_edges pgm n an a edges visited1 l1) snd
            (\<lambda>l'. invariant S P l' \<and> frame l1 l')"
      using "10.IH"(2) [OF Ok x [symmetric] "10.prems"(1,2) i1 p1(1,2) "10.prems"(6) p1(3)] es p1(4)
      by simp
    then have "after (decide_edges pgm n an a edges visited1 l1) snd
            (\<lambda>l'. invariant S P l' \<and> frame l l')"
      by (rule after_mono) (use f1 frame_trans in blast)
    with Ok x show ?thesis by simp
  qed
qed

lemma analyze_returns_invariant:
  "an_ok S P al tg an \<Longrightarrow> closed pgm tg al S \<Longrightarrow>
     invariant S P l \<Longrightarrow> allowed l = al \<Longrightarrow> target l = tg \<Longrightarrow> 0 < a \<Longrightarrow>
     a < length (objects l) \<Longrightarrow>
     (fn (deref l a) \<in> S \<longrightarrow> (\<forall>(ret, idx) \<in> set pairs. idx < length ret \<longrightarrow> ok_val al S (ret ! idx))) \<Longrightarrow>
     after (analyze_returns (decide pgm n an a) a pairs visited l) (\<lambda>l. l)
       (\<lambda>l'. invariant S P l' \<and> frame l l')"
proof (induction pairs arbitrary: visited l)
  case Nil
  then show ?case by simp
next
  case (Cons pr pairs)
  obtain ret idx where pr: "pr = (ret, idx)" by (cases pr)
  show ?case
  proof (cases "idx < length ret")
    case False
    with pr Cons.prems show ?thesis by simp
  next
    case True
    with Cons.prems(8) pr have ok: "fn (deref l a) \<in> S \<longrightarrow> ok_val al S (ret ! idx)" by auto
    note d = decide_invariant(1) [OF Cons.prems(1-7) ok, of n visited]
    show ?thesis
    proof (cases "decide pgm n an a (ret ! idx) visited l")
      case OutOfFuel
      with pr True show ?thesis by simp
    next
      case (Panic p l1)
      with d pr True show ?thesis by simp
    next
      case (Ok x)
      obtain visited1 l1 where x: "x = (visited1, l1)" by (cases x)
      with Ok d have i1: "invariant S P l1" and f1: "frame l l1" by auto
      show ?thesis
      proof (cases "state (deref l1 a) \<noteq> stateAnalyzing")
        case True
        with Ok x pr \<open>idx < length ret\<close> i1 f1 show ?thesis by simp
      next
        case False
        from f1 Cons.prems have p1: "allowed l1 = al" "target l1 = tg" "a < length (objects l1)"
          "fn (deref l1 a) = fn (deref l a)" by (auto simp: frame_def)
        have "after (analyze_returns (decide pgm n an a) a pairs visited1 l1) (\<lambda>l. l)
                (\<lambda>l'. invariant S P l' \<and> frame l1 l')"
          using Cons.prems(8) p1(4)
          by (intro Cons.IH [OF Cons.prems(1,2) i1 p1(1,2) Cons.prems(6) p1(3)]) auto
        then have "after (analyze_returns (decide pgm n an a) a pairs visited1 l1) (\<lambda>l. l)
                (\<lambda>l'. invariant S P l' \<and> frame l l')"
          by (rule after_mono) (use f1 frame_trans in blast)
        with Ok x pr \<open>idx < length ret\<close> False show ?thesis by simp
      qed
    qed
  qed
qed

lemma rets_ok_pairs:
  assumes "rets_ok al S rets idxs"
  shows "\<forall>(ret, idx) \<in> set (concat (map (\<lambda>ret. map (\<lambda>idx. (ret, idx)) idxs) rets)).
           idx < length ret \<longrightarrow> ok_val al S (ret ! idx)"
  using assms by (auto simp: rets_ok_def list_all_iff)

lemma analyze_invariant:
  assumes cl: "closed pgm tg al S"
  shows "invariant S P l \<Longrightarrow> allowed l = al \<Longrightarrow> target l = tg \<Longrightarrow> b < length (objects l) \<Longrightarrow>
     after (analyze pgm n b l) (\<lambda>l. l)
       (\<lambda>l'. invariant S P l' \<and> frame l l' \<and> state (deref l' b) \<noteq> stateUnknown)"
proof (induction n arbitrary: P l b)
  case 0
  then show ?case by simp
next
  case (Suc n)
  show ?case
  proof (cases "state (deref l b) \<noteq> stateUnknown")
    case True
    with Suc.prems show ?thesis by simp
  next
    case False
    then have u: "state (deref l b) = stateUnknown" by simp
    from Suc.prems(1) have c0: "state (deref l 0) = stateClean" by (simp add: invariant_def clean_def)
    with u have b0: "0 < b" by (cases b) auto
    from Suc.prems(1,4) have c: "cell_ok (allowed l) S b (deref l b)"
      and d: "deps_ok S l (deref l b)" by (auto simp: invariant_def)
    let ?s = "(deref l b)\<lparr>state := stateAnalyzing\<rparr>"
    let ?l1 = "put b ?s l"
    have i1: "invariant S P ?l1"
    proof (rule invariant_put [OF Suc.prems(1) b0 Suc.prems(4)])
      show "cell_ok (allowed l) S b ?s" using c by (simp add: cell_ok_def)
      show "deps_ok S l ?s" using d by (simp add: deps_ok_def)
      show "permitted (b, deref l b, ?s)" using u by (rule permitted_unknown)
    qed simp_all
    have f1: "frame l ?l1" by (rule frame_put) simp_all
    have d1: "deref ?l1 b = ?s" using Suc.prems(4) by simp
    have k1: "state (deref ?l1 b) \<noteq> stateUnknown" by (simp add: d1)
    have an: "an_ok S P al tg (analyze pgm n)"
      unfolding an_ok_def
    proof (intro allI impI)
      fix b' l' assume "invariant S P l'" "allowed l' = al" "target l' = tg"
        "b' < length (objects l')"
      from Suc.IH [OF this]
      show "after (analyze pgm n b' l') (\<lambda>l. l) (\<lambda>l''. invariant S P l'' \<and> frame l' l'')"
        by (rule after_mono) simp
    qed
    let ?pairs = "concat (map (\<lambda>ret. map (\<lambda>idx. (ret, idx)) (targetIndexes (deref ?l1 b)))
                   (returns (deref ?l1 b)))"
    have ok: "fn (deref ?l1 b) \<in> S \<longrightarrow>
        (\<forall>(ret, idx) \<in> set ?pairs. idx < length ret \<longrightarrow> ok_val al S (ret ! idx))"
    proof
      assume "fn (deref ?l1 b) \<in> S"
      with c Suc.prems(2) have "rets_ok al S (returns (deref ?l1 b)) (targetIndexes (deref ?l1 b))"
        by (simp add: d1 cell_ok_def)
      then show "\<forall>(ret, idx) \<in> set ?pairs. idx < length ret \<longrightarrow> ok_val al S (ret ! idx)"
        by (rule rets_ok_pairs)
    qed
    have r: "after (analyze_returns (decide pgm n (analyze pgm n) b) b ?pairs {} ?l1) (\<lambda>l. l)
            (\<lambda>l'. invariant S P l' \<and> frame ?l1 l')"
      using Suc.prems(2,3,4) ok
      by (intro analyze_returns_invariant [OF an cl i1 _ _ b0]) simp_all
    have q: "invariant S P l' \<and> frame l l' \<and> state (deref l' b) \<noteq> stateUnknown"
      if "invariant S P l' \<and> frame ?l1 l'" for l'
    proof -
      from that f1 have "frame l l'" by (auto intro: frame_trans)
      moreover from that k1 Suc.prems(4) have "state (deref l' b) \<noteq> stateUnknown"
        by (auto simp: frame_def)
      ultimately show ?thesis using that by simp
    qed
    show ?thesis
    proof (cases "analyze_returns (decide pgm n (analyze pgm n) b) b ?pairs {} ?l1")
      case OutOfFuel
      with u show ?thesis by (simp add: Let_def)
    next
      case (Panic p l2)
      with r q [of l2] u show ?thesis by (simp add: Let_def)
    next
      case (Ok l2)
      with r q [of l2] u show ?thesis by (simp add: Let_def)
    qed
  qed
qed

lemma invariant_shrink:
  "invariant S (insert a P) l \<Longrightarrow> state (deref l a) \<noteq> stateUnknown \<Longrightarrow> invariant S P l"
  unfolding invariant_def by auto

lemma post_frame:
  assumes "frame l l1" "post S l1 r"
  shows "post S l r"
proof (cases r)
  case (Ok l')
  with assms frame_trans [of l l1 l'] show ?thesis by (simp add: post_def)
next
  case (Panic p l')
  with assms frame_trans [of l l1 l'] show ?thesis by (simp add: post_def)
next
  case OutOfFuel
  then show ?thesis by (simp add: post_def)
qed

lemma invariant_work_reset:
  assumes "invariant S {} l"
  shows "invariant S (set (work l)) (l\<lparr>work := []\<rparr>)"
proof -
  have d: "deref (l\<lparr>work := []\<rparr>) b = deref l b" for b by (simp add: deref_def)
  have "deps_ok S (l\<lparr>work := []\<rparr>) x = deps_ok S l x" for x by (simp add: deps_ok_def d)
  with assms show ?thesis unfolding invariant_def by (simp add: d)
qed

lemma analyze_all_invariant:
  assumes cl: "closed pgm tg al S"
  shows "invariant S (set as) l \<Longrightarrow> allowed l = al \<Longrightarrow> target l = tg \<Longrightarrow>
     \<forall>a \<in> set as. a < length (objects l) \<Longrightarrow>
     post S l (analyze_all (analyze pgm n) as l)"
proof (induction as arbitrary: l)
  case Nil
  then show ?case by (simp add: post_def)
next
  case (Cons a as)
  from Cons.prems(4) have a: "a < length (objects l)" by simp
  note an = analyze_invariant [OF cl Cons.prems(1-3) a, of n]
  show ?case
  proof (cases "analyze pgm n a l")
    case OutOfFuel
    then show ?thesis by (simp add: post_def)
  next
    case (Panic p l1)
    with an show ?thesis by (auto simp: post_def)
  next
    case (Ok l1)
    with an have i1: "invariant S (set (a # as)) l1" and f1: "frame l l1"
      and k: "state (deref l1 a) \<noteq> stateUnknown" by auto
    from i1 k have i1': "invariant S (set as) l1" by (simp add: invariant_shrink [of S a "set as" l1])
    from f1 Cons.prems have p1: "allowed l1 = al" "target l1 = tg"
      "\<forall>a \<in> set as. a < length (objects l1)" by (auto simp: frame_def)
    from Cons.IH [OF i1' p1] have "post S l1 (analyze_all (analyze pgm n) as l1)" .
    with f1 have "post S l (analyze_all (analyze pgm n) as l1)" by (rule post_frame)
    with Ok show ?thesis by simp
  qed
qed

lemma work_loop_invariant:
  assumes cl: "closed pgm tg al S"
  shows "invariant S {} l \<Longrightarrow> allowed l = al \<Longrightarrow> target l = tg \<Longrightarrow>
     post S l (work_loop pgm n l) \<and> (\<forall>l'. work_loop pgm n l = Ok l' \<longrightarrow> work l' = [])"
proof (induction n arbitrary: l)
  case 0
  then show ?case by (simp add: post_def)
next
  case (Suc n)
  show ?case
  proof (cases "work l = []")
    case True
    with Suc.prems show ?thesis by (simp add: post_def)
  next
    case False
    let ?l0 = "l\<lparr>work := []\<rparr>"
    have i0: "invariant S (set (work l)) ?l0" using Suc.prems(1) by (rule invariant_work_reset)
    have f0: "frame l ?l0" by (simp add: frame_def deref_def)
    from Suc.prems(1) have w: "\<forall>a \<in> set (work l). a < length (objects ?l0)"
      by (simp add: invariant_def)
    have p: "post S ?l0 (analyze_all (analyze pgm (Suc n)) (work l) ?l0)"
      using Suc.prems(2,3) by (simp add: analyze_all_invariant [OF cl i0 _ _ w])
    show ?thesis
    proof (cases "analyze_all (analyze pgm (Suc n)) (work l) ?l0")
      case OutOfFuel
      with False show ?thesis by (simp add: post_def)
    next
      case (Panic p' l1)
      with post_frame [OF f0 p] False show ?thesis by simp
    next
      case (Ok l1)
      with p have i1: "invariant S {} l1" and f1: "frame ?l0 l1" by (auto simp: post_def)
      from f0 f1 have fl: "frame l l1" by (rule frame_trans)
      with Suc.prems have p1: "allowed l1 = al" "target l1 = tg" by (auto simp: frame_def)
      from Suc.IH [OF i1 p1] have ih: "post S l1 (work_loop pgm n l1)"
        "\<forall>l'. work_loop pgm n l1 = Ok l' \<longrightarrow> work l' = []" by auto
      from fl ih(1) have "post S l (work_loop pgm n l1)" by (rule post_frame)
      with ih(2) Ok False show ?thesis by simp
    qed
  qed
qed

lemma stat_methods_invariant:
  "closed pgm tg al S \<Longrightarrow> invariant S {} l \<Longrightarrow> allowed l = al \<Longrightarrow> target l = tg \<Longrightarrow>
     invariant S {} (stat_methods pgm ms l) \<and> frame l (stat_methods pgm ms l)"
proof (induction pgm ms l rule: stat_methods.induct)
  case (1 pgm l)
  then show ?case by simp
next
  case (2 pgm ms l)
  then show ?case by simp
next
  case (3 pgm f ms l)
  obtain a l1 where s: "stat pgm l f = (a, l1)" by (cases "stat pgm l f")
  from stat_invariant [OF "3.prems"(2) _ s] "3.prems"
  have i1: "invariant S {} l1" and f1: "frame l l1" by simp_all
  with "3.prems" have al1: "allowed l1 = al" "target l1 = tg" by (auto simp: frame_def)
  from s have l1: "snd (stat pgm l f) = l1" by simp
  from "3.IH" [unfolded l1, OF "3.prems"(1) i1 al1] s f1 show ?case
    by (auto intro: frame_trans [of l])
qed

lemma stat_members_invariant:
  "closed pgm tg al S \<Longrightarrow> invariant S {} l \<Longrightarrow> allowed l = al \<Longrightarrow> target l = tg \<Longrightarrow>
     invariant S {} (stat_members pgm ms l) \<and> frame l (stat_members pgm ms l)"
proof (induction pgm ms l rule: stat_members.induct)
  case (1 pgm l)
  then show ?case by simp
next
  case (2 pgm f ms l)
  obtain a l1 where s: "stat pgm l f = (a, l1)" by (cases "stat pgm l f")
  from stat_invariant [OF "2.prems"(2) _ s] "2.prems"
  have i1: "invariant S {} l1" and f1: "frame l l1" by simp_all
  with "2.prems" have al1: "allowed l1 = al" "target l1 = tg" by (auto simp: frame_def)
  from s have l1: "snd (stat pgm l f) = l1" by simp
  from "2.IH" [unfolded l1, OF "2.prems"(1) i1 al1] s f1 show ?case
    by (auto intro: frame_trans [of l])
next
  case (3 pgm vs ps ms l)
  let ?l1 = "stat_methods pgm vs l"
  let ?l2 = "stat_methods pgm ps ?l1"
  from stat_methods_invariant [OF "3.prems"] have 1: "invariant S {} ?l1" "frame l ?l1" by auto
  with "3.prems" have a1: "allowed ?l1 = al" "target ?l1 = tg" by (auto simp: frame_def)
  from stat_methods_invariant [OF "3.prems"(1) 1(1) a1]
  have 2: "invariant S {} ?l2" "frame ?l1 ?l2" by auto
  with a1 have a2: "allowed ?l2 = al" "target ?l2 = tg" by (auto simp: frame_def)
  from "3.IH" [OF "3.prems"(1) 2(1) a2] 1(2) 2(2) show ?case
    by (auto intro: frame_trans [of l])
next
  case (4 pgm ms l)
  then show ?case by simp
qed

lemma stat_packages_invariant:
  "closed pgm tg al S \<Longrightarrow> invariant S {} l \<Longrightarrow> allowed l = al \<Longrightarrow> target l = tg \<Longrightarrow>
     invariant S {} (stat_packages pgm pkgs l) \<and> frame l (stat_packages pgm pkgs l)"
proof (induction pgm pkgs l rule: stat_packages.induct)
  case (1 pgm l)
  then show ?case by simp
next
  case (2 pgm pkg pkgs l)
  let ?l1 = "stat_members pgm (p_members pkg) l"
  from stat_members_invariant [OF "2.prems"] have 1: "invariant S {} ?l1" "frame l ?l1" by auto
  with "2.prems" have a1: "allowed ?l1 = al" "target ?l1 = tg" by (auto simp: frame_def)
  from "2.IH" [OF "2.prems"(1) 1(1) a1] 1(2) show ?case
    by (auto intro: frame_trans [of l])
qed

lemma invariant_initial:
  "invariant S {} \<lparr>allowed = al, stats = [], target = tg, work = [], objects = [clean], history = []\<rparr>"
  by (simp add: invariant_def deref_def cell_ok_def deps_ok_def clean_def)

lemma finish_props:
  "\<forall>e \<in> set (history l). permitted e \<Longrightarrow>
     (\<forall>e \<in> set (history (finish as l)). permitted e)
     \<and> stats (finish as l) = stats l \<and> allowed (finish as l) = allowed l
     \<and> target (finish as l) = target l
     \<and> length (objects (finish as l)) = length (objects l)
     \<and> (\<forall>a < length (objects l).
           deref (finish as l) a
             = (if a \<in> set as \<and> state (deref l a) = stateAnalyzing
                then (deref l a)\<lparr>state := stateClean\<rparr> else deref l a))"
proof (induction as arbitrary: l)
  case Nil
  then show ?case by simp
next
  case (Cons a as)
  let ?l1 = "if state (deref l a) = stateAnalyzing
             then put a ((deref l a)\<lparr>state := stateClean\<rparr>) l else l"
  have h1: "\<forall>e \<in> set (history ?l1). permitted e"
    using Cons.prems by (auto simp: put_def permitted_analyzing)
  have s1: "stats ?l1 = stats l" "allowed ?l1 = allowed l" "target ?l1 = target l"
    "length (objects ?l1) = length (objects l)" by (simp_all add: put_def)
  have d1: "deref ?l1 b = (if b = a \<and> state (deref l a) = stateAnalyzing
                           then (deref l a)\<lparr>state := stateClean\<rparr> else deref l b)"
    if "b < length (objects l)" for b
    using that by (simp add: deref_put)
  from Cons.IH [OF h1] s1
  have ih: "\<forall>e \<in> set (history (finish as ?l1)). permitted e"
    "stats (finish as ?l1) = stats l" "allowed (finish as ?l1) = allowed l"
    "target (finish as ?l1) = target l"
    "length (objects (finish as ?l1)) = length (objects l)"
    "\<forall>b < length (objects l).
           deref (finish as ?l1) b
             = (if b \<in> set as \<and> state (deref ?l1 b) = stateAnalyzing
                then (deref ?l1 b)\<lparr>state := stateClean\<rparr> else deref ?l1 b)"
    by simp_all
  have "deref (finish as ?l1) b
             = (if b \<in> set (a # as) \<and> state (deref l b) = stateAnalyzing
                then (deref l b)\<lparr>state := stateClean\<rparr> else deref l b)"
    if b: "b < length (objects l)" for b
    using ih(6) b d1 [OF b] by (cases "b = a") auto
  with ih(1-5) show ?case by simp
qed

lemma run_invariant:
  assumes cl: "closed pgm tg al S"
    and l0_def: "l0 = stat_packages pgm sp
     \<lparr>allowed = al, stats = [], target = tg, work = [], objects = [clean], history = []\<rparr>"
  shows "post S l0 (work_loop pgm fuel l0)"
    and "work_loop pgm fuel l0 = Ok l1 \<Longrightarrow> work l1 = [] \<and> allowed l1 = al \<and> target l1 = tg"
proof -
  let ?i = "\<lparr>allowed = al, stats = [], target = tg, work = [], objects = [clean], history = []\<rparr>"
  have i: "invariant S {} ?i" by (rule invariant_initial)
  from stat_packages_invariant [OF cl i, of sp]
  have i0: "invariant S {} l0" and f0: "frame ?i l0" by (simp_all add: l0_def)
  from f0 have a0: "allowed l0 = al" "target l0 = tg" by (simp_all add: frame_def)
  from work_loop_invariant [OF cl i0 a0, of fuel]
  show p: "post S l0 (work_loop pgm fuel l0)"
    and "work_loop pgm fuel l0 = Ok l1 \<Longrightarrow> work l1 = [] \<and> allowed l1 = al \<and> target l1 = tg"
    using a0 by (auto simp: post_def frame_def)
qed

lemma closed_empty: "closed pgm tg al {}"
  by (simp add: closed_def)

lemma counted_md_rel: "md_rel l l' \<Longrightarrow> counted U b l \<Longrightarrow> counted U b l'"
  by (simp add: counted_def md_rel_def)

lemma propagate_no_panic:
  assumes "\<And>b w l. md b w l \<noteq> Panic p l'"
  shows "propagate md ds w l \<noteq> Panic p l'"
proof (induction ds arbitrary: l)
  case Nil
  then show ?case by simp
next
  case (Cons d ds)
  obtain chained call where d: "d = (chained, call)" by (cases d)
  show ?case
    using assms [of chained "\<lparr>Reason = Calls, Value = call\<rparr> # w" l] Cons.IH
    by (cases "md chained (\<lparr>Reason = Calls, Value = call\<rparr> # w) l") (simp_all add: d)
qed

lemma markDirty_no_panic: "markDirty n a w l \<noteq> Panic p l'"
proof (induction n arbitrary: a w l)
  case 0
  then show ?case by simp
next
  case (Suc n)
  show ?case
    using propagate_no_panic [of "markDirty n" p l', OF Suc.IH]
    by (simp add: markDirty_Suc')
qed

lemma markDirty_counted:
  "counted U b l \<Longrightarrow> after (markDirty n a w l) (\<lambda>l. l) (counted U b)"
  using markDirty_rel [of n a w l] markDirty_no_panic [of n a w l]
  by (cases "markDirty n a w l") (auto intro: counted_md_rel)

lemma counted_put:
  assumes c: "counted U b l" and r: "returns s = returns (deref l a)"
  shows "counted U b (put a s l)"
proof -
  have "returns (deref (put a s l) x) = returns (deref l x)" for x
    using r by (simp add: deref_put)
  with c show ?thesis by (simp add: counted_def)
qed

lemma counted_put_returns:
  assumes c: "counted U b l" and r: "rets_in U (returns s)"
  shows "counted U b (put a s l)"
proof -
  have "rets_in U (returns (deref (put a s l) x))" if "x < length (objects l)" for x
    using r c that by (simp add: deref_put counted_def)
  with c show ?thesis by (simp add: counted_def)
qed

lemma counted_new_stat:
  assumes c: "counted U b l" and f: "f \<in> U" and n: "map_of (stats l) f = None"
    and fin: "finite U"
  shows "counted U b (snd (new_stat l f))"
proof -
  let ?D = "fst ` set (stats l)"
  let ?n = "length (objects l)"
  let ?l1 = "l\<lparr>objects := objects l @ [fresh f], stats := AList.update f ?n (stats l),
       work := work l @ [?n]\<rparr>"
  from c have c1: "?D \<subseteq> U" and c2: "Suc (card ?D) = ?n"
    and c3: "\<forall>a \<in> snd ` set (stats l). a < ?n"
    and c4: "\<forall>a < ?n. rets_in U (returns (deref l a))"
    and c5: "b \<le> ?n" and c6: "\<forall>a \<in> set (work l). b \<le> a"
    by (simp_all add: counted_def)
  from n have nf: "f \<notin> ?D" by (simp add: map_of_eq_None_iff)
  from c1 fin have fD: "finite ?D" by (rule finite_subset)
  have D: "fst ` set (stats ?l1) = insert f ?D" by (simp add: dom_update)
  have card: "card (insert f ?D) = Suc (card ?D)" using nf fD by simp
  have "counted U b ?l1"
    unfolding counted_def
  proof (intro conjI)
    show "fst ` set (stats ?l1) \<subseteq> U" unfolding D using c1 f by simp
    show "Suc (card (fst ` set (stats ?l1))) = length (objects ?l1)"
      unfolding D card using c2 by simp
    show "\<forall>a \<in> snd ` set (stats ?l1). a < length (objects ?l1)"
      using c3 set_update_subset [of f ?n "stats l"] by fastforce
    show "\<forall>a < length (objects ?l1). rets_in U (returns (deref ?l1 a))"
    proof (intro allI impI)
      fix a assume "a < length (objects ?l1)"
      then show "rets_in U (returns (deref ?l1 a))"
        using c4 by (cases "a < ?n") (auto simp: nth_append deref_def fresh_def rets_in_def)
    qed
    show "b \<le> length (objects ?l1)" using c5 by simp
    show "\<forall>a \<in> set (work ?l1). b \<le> a" using c5 c6 by simp
  qed
  then show ?thesis by (simp add: new_stat_eq)
qed

lemma counted_stats_clean:
  assumes c: "counted U b l" and f: "f \<in> fst ` set (stats l)"
  shows "counted U b (l\<lparr>stats := AList.update f 0 (stats l)\<rparr>)"
proof -
  have D: "fst ` set (AList.update f 0 (stats l)) = fst ` set (stats l)"
    using f by (auto simp: dom_update)
  have "\<forall>a \<in> snd ` set (AList.update f 0 (stats l)). a < length (objects l)"
    using c set_update_subset [of f 0 "stats l"] by (fastforce simp: counted_def)
  with c show ?thesis by (simp add: counted_def deref_def D)
qed

lemma extract_counted:
  assumes u: "U_closed pgm U" and c: "counted U b l" and f: "f \<in> U"
    and m: "map_of (stats l) f = Some a"
  shows "counted U b (extract_pass pgm l f)"
proof -
  from m have d: "f \<in> fst ` set (stats l)" by (force dest: map_of_SomeD)
  let ?R = "return_instrs (f_blocks (function_at pgm f))"
  from u f have R: "rets_in U ?R" by (simp add: U_closed_def)
  let ?l2 = "put a ((deref l a)\<lparr>returns := ?R\<rparr>) l"
  have c2: "counted U b ?l2" using c R by (intro counted_put_returns) simp_all
  have "counted U b (put a ((deref ?l2 a)\<lparr>targetIndexes := idx\<rparr>) ?l2)" for idx
    using c2 by (rule counted_put) simp
  with c d m show ?thesis
    by (simp add: extract_pass_def Let_def counted_stats_clean)
qed

lemma stat_counted:
  assumes u: "U_closed pgm U" and c: "counted U b l" and f: "f \<in> U"
  shows "counted U b (snd (stat pgm l f))"
proof (cases "map_of (stats l) f")
  case (Some a)
  with c show ?thesis by (simp add: stat_def)
next
  case None
  let ?l1 = "snd (new_stat l f)"
  from u have fin: "finite U" by (simp add: U_closed_def)
  have c1: "counted U b ?l1" using c f None fin by (rule counted_new_stat)
  have m1: "map_of (stats ?l1) f = Some (length (objects l))"
    by (simp add: new_stat_eq update_conv)
  from extract_counted [OF u c1 f m1] None show ?thesis
    by (simp add: stat_def new_stat_eq)
qed

lemma stat_addr:
  assumes c: "counted U b l" and s: "stat pgm l f = (a, l')"
  shows "a < length (objects l')"
proof (cases "map_of (stats l) f")
  case (Some x)
  then have "x \<in> snd ` set (stats l)" by (force dest: map_of_SomeD)
  with c s Some show ?thesis by (auto simp: stat_def counted_def)
next
  case None
  have "length (objects (extract_pass pgm l1 f)) = length (objects l1)"
    if "map_of (stats l1) f = Some x" for l1 x
    using that by (simp add: extract_pass_def Let_def)
  from this [of "snd (new_stat l f)" "length (objects l)"] s None show ?thesis
    by (auto simp: stat_def new_stat_eq update_conv)
qed

lemma markDirty_leaf_counted:
  assumes "counted U b l"
  shows "after (case markDirty n a w l of Ok l1 \<Rightarrow> Ok (visited, l1)
                | Panic p l1 \<Rightarrow> Panic p l1 | OutOfFuel \<Rightarrow> OutOfFuel) snd (counted U b)"
  using markDirty_counted [OF assms, where n = n and a = a and w = w]
  by (cases "markDirty n a w l") auto

lemma allowed_leaf_counted:
  assumes "counted U b l"
  shows "after (case isAllowed al t of
                  None \<Rightarrow> Panic p l
                | Some True \<Rightarrow> Ok (visited', l)
                | Some False \<Rightarrow>
                    (case markDirty n a w l of Ok l1 \<Rightarrow> Ok (visited', l1)
                     | Panic p l1 \<Rightarrow> Panic p l1 | OutOfFuel \<Rightarrow> OutOfFuel)) snd (counted U b)"
proof (cases "isAllowed al t")
  case None
  with assms show ?thesis by simp
next
  case (Some x)
  with assms markDirty_leaf_counted [OF assms, where n = n and a = a and w = w and visited = visited']
  show ?thesis
    by (cases x) simp_all
qed

lemma decide_call_counted:
  assumes an: "an_counted U b an" and u: "U_closed pgm U" and c: "counted U b l"
    and v: "callees (Call i t callee) \<subseteq> U"
  shows "after (decide pgm n an a (Call i t callee) visited l) snd (counted U b)"
proof (cases "i \<in> visited")
  case True
  with c show ?thesis by simp
next
  case ns: False
  show ?thesis
  proof (cases callee)
    case None
    with markDirty_leaf_counted [OF c] ns show ?thesis by simp
  next
    case (Some f)
    with v have f: "f \<in> U" by simp
    obtain nxt l1 where st: "stat pgm l f = (nxt, l1)" by (cases "stat pgm l f")
    from stat_counted [OF u c f] st have c1: "counted U b l1" by simp
    from stat_addr [OF c st] have n1: "nxt < length (objects l1)" .
    from an c1 n1 have an1: "after (an nxt l1) (\<lambda>l. l) (counted U b)"
      by (simp add: an_counted_def)
    show ?thesis
    proof (cases "an nxt l1")
      case OutOfFuel
      with Some ns st show ?thesis by simp
    next
      case (Panic p l2)
      with an1 Some ns st show ?thesis by simp
    next
      case (Ok l2)
      with an1 have c2: "counted U b l2" by simp
      let ?s = "(deref l2 nxt)\<lparr>dirties := AList.update a i (dirties (deref l2 nxt))\<rparr>"
      have cp: "counted U b (put nxt ?s l2)" using c2 by (rule counted_put) simp
      show ?thesis
      proof (cases "state (deref l2 nxt)")
        case stateClean
        with Ok Some ns st c2 show ?thesis by simp
      next
        case stateDirty
        with Ok Some ns st markDirty_leaf_counted [OF c2] show ?thesis by simp
      next
        case stateUnknown
        with Ok Some ns st cp show ?thesis by simp
      next
        case stateAnalyzing
        with Ok Some ns st cp show ?thesis by simp
      qed
    qed
  qed
qed

lemma decide_counted:
  shows "an_counted U b an \<Longrightarrow> U_closed pgm U \<Longrightarrow> counted U b l \<Longrightarrow> callees v \<subseteq> U \<Longrightarrow>
      after (decide pgm n an a v visited l) snd (counted U b)"
    and "an_counted U b an \<Longrightarrow> U_closed pgm U \<Longrightarrow> counted U b l \<Longrightarrow>
      (\<forall>v \<in> set vs. callees v \<subseteq> U) \<Longrightarrow>
      after (decide_edges pgm n an a vs visited l) snd (counted U b)"
proof (induction pgm n an a v visited l and pgm n an a vs visited l rule: decide_decide_edges.induct)
  case (1 pgm n an a i t callee visited l)
  then show ?case by (intro decide_call_counted)
next
  case (2 pgm n an a i t isNil visited l)
  with allowed_leaf_counted [OF "2.prems"(3)] show ?case
    by (cases "i \<in> visited \<or> isNil") auto
next
  case (3 pgm n an a i t tuple visited l)
  then show ?case by (cases "i \<in> visited") auto
next
  case (4 pgm n an a i t x visited l)
  then show ?case by (cases "i \<in> visited") auto
next
  case (5 pgm n an a i t edges visited l)
  then show ?case by (cases "i \<in> visited") auto
next
  case (6 pgm n an a i t asserted visited l)
  with allowed_leaf_counted [OF "6.prems"(3)] show ?case
    by (cases "i \<in> visited") auto
next
  case (7 pgm n an a i t op x visited l)
  then show ?case by (cases "i \<in> visited"; cases "op = MUL") auto
next
  case (8 pgm n an a i t visited l)
  with allowed_leaf_counted [OF "8.prems"(3)] show ?case
    by (cases "i \<in> visited") auto
next
  case (9 pgm n an a visited l)
  then show ?case by simp
next
  case (10 pgm n an a edge edges visited l)
  from "10.prems" have e: "callees edge \<subseteq> U" and es: "\<forall>v \<in> set edges. callees v \<subseteq> U" by auto
  note d = "10.IH"(1) [OF "10.prems"(1-3) e]
  show ?case
  proof (cases "decide pgm n an a edge visited l")
    case OutOfFuel
    then show ?thesis by simp
  next
    case (Panic p l1)
    with d show ?thesis by simp
  next
    case (Ok x)
    obtain visited1 l1 where x: "x = (visited1, l1)" by (cases x)
    with Ok d have c1: "counted U b l1" by auto
    from "10.IH"(2) [OF Ok x [symmetric] "10.prems"(1,2) c1 es] Ok x show ?thesis by simp
  qed
qed

lemma analyze_returns_counted:
  "an_counted U b an \<Longrightarrow> U_closed pgm U \<Longrightarrow> counted U b l \<Longrightarrow>
     (\<forall>(ret, idx) \<in> set pairs. \<forall>v \<in> set ret. callees v \<subseteq> U) \<Longrightarrow>
     after (analyze_returns (decide pgm n an a) a pairs visited l) (\<lambda>l. l) (counted U b)"
proof (induction pairs arbitrary: visited l)
  case Nil
  then show ?case by simp
next
  case (Cons pr pairs)
  obtain ret idx where pr: "pr = (ret, idx)" by (cases pr)
  show ?case
  proof (cases "idx < length ret")
    case False
    with pr Cons.prems show ?thesis by simp
  next
    case True
    with Cons.prems(4) pr have v: "callees (ret ! idx) \<subseteq> U" by auto
    note d = decide_counted(1) [OF Cons.prems(1-3) v, of n a visited]
    show ?thesis
    proof (cases "decide pgm n an a (ret ! idx) visited l")
      case OutOfFuel
      with pr True show ?thesis by simp
    next
      case (Panic p l1)
      with d pr True show ?thesis by simp
    next
      case (Ok x)
      obtain visited1 l1 where x: "x = (visited1, l1)" by (cases x)
      with Ok d have c1: "counted U b l1" by auto
      from Cons.prems(4) have "\<forall>(ret, idx) \<in> set pairs. \<forall>v \<in> set ret. callees v \<subseteq> U" by simp
      from Cons.IH [OF Cons.prems(1,2) c1 this, of visited1] Ok x pr True c1 show ?thesis by simp
    qed
  qed
qed

lemma analyze_counted:
  assumes u: "U_closed pgm U"
  shows "counted U b l \<Longrightarrow> a < length (objects l) \<Longrightarrow>
     after (analyze pgm n a l) (\<lambda>l. l) (counted U b)"
proof (induction n arbitrary: l a)
  case 0
  then show ?case by simp
next
  case (Suc n)
  show ?case
  proof (cases "state (deref l a) \<noteq> stateUnknown")
    case True
    with Suc.prems show ?thesis by simp
  next
    case False
    let ?s = "(deref l a)\<lparr>state := stateAnalyzing\<rparr>"
    let ?l1 = "put a ?s l"
    have c1: "counted U b ?l1" using Suc.prems(1) by (rule counted_put) simp
    have an: "an_counted U b (analyze pgm n)" using Suc.IH by (simp add: an_counted_def)
    let ?pairs = "concat (map (\<lambda>ret. map (\<lambda>idx. (ret, idx)) (targetIndexes (deref ?l1 a)))
                   (returns (deref ?l1 a)))"
    have "returns (deref ?l1 a) = returns (deref l a)" by (simp add: deref_put)
    moreover from Suc.prems have "rets_in U (returns (deref l a))" by (simp add: counted_def)
    ultimately have pr: "\<forall>(ret, idx) \<in> set ?pairs. \<forall>v \<in> set ret. callees v \<subseteq> U"
      by (auto simp: rets_in_def)
    note r = analyze_returns_counted [OF an u c1 pr, of n a "{}"]
    show ?thesis
      using r False
      by (cases "analyze_returns (decide pgm n (analyze pgm n) a) a ?pairs {} ?l1")
        (simp_all add: Let_def)
  qed
qed

lemma finite_unsettled [simp]: "finite (unsettled l k)"
  by (simp add: unsettled_def)

lemma card_unsettled: "card (unsettled l k) \<le> length (objects l)"
proof -
  have "unsettled l k \<subseteq> {..< length (objects l)}" by (auto simp: unsettled_def)
  from card_mono [OF _ this] show ?thesis by simp
qed

lemma settled_md_rel: "md_rel l l' \<Longrightarrow> settled l k b \<Longrightarrow> settled l' k b"
  unfolding md_rel_def settled_def by (metis le_trans)

lemma unsettled_md_rel: "md_rel l l' \<Longrightarrow> unsettled l' k \<subseteq> unsettled l k"
  using settled_md_rel by (auto simp: unsettled_def md_rel_def)

lemma unsettled_Suc: "unsettled l (Suc k) \<subseteq> unsettled l k"
  by (auto simp: unsettled_def settled_def)

lemma settled_mark: "a < length (objects l) \<Longrightarrow> settled (mark a w l) (length w) a"
  by (cases "why (deref l a)") (auto simp: settled_def deref_mark_same)

lemma unsettled_mark:
  assumes a: "a < length (objects l)" and ns: "\<not> settled l (length w) a"
  shows "card (unsettled (mark a w l) (Suc (length w))) < card (unsettled l (length w))"
proof -
  have "unsettled (mark a w l) (Suc (length w)) \<subseteq> unsettled (mark a w l) (length w)"
    by (rule unsettled_Suc)
  also have "\<dots> \<subseteq> unsettled l (length w) - {a}"
    using unsettled_md_rel [OF md_rel_mark, of a w l "length w"] settled_mark [OF a, of w]
    by (auto simp: unsettled_def)
  also have "\<dots> \<subset> unsettled l (length w)" using a ns by (auto simp: unsettled_def)
  finally show ?thesis by (intro psubset_card_mono) simp_all
qed

lemma deps_valid_iff:
  "deps_valid l \<longleftrightarrow>
     (\<forall>a < length (objects l). \<forall>(b, c) \<in> set (dirties (deref l a)). b < length (objects l))"
proof -
  have "(\<forall>s \<in> set (objects l). Q s) \<longleftrightarrow> (\<forall>a < length (objects l). Q (objects l ! a))"
    for Q :: "funcStat \<Rightarrow> bool"
    by (metis in_set_conv_nth)
  then show ?thesis by (simp add: deps_valid_def list_all_iff deref_def)
qed

lemma deps_valid_md_rel: "md_rel l l' \<Longrightarrow> deps_valid l \<Longrightarrow> deps_valid l'"
  by (simp add: deps_valid_iff md_rel_def)

lemma invariant_deps_valid: "invariant S P l \<Longrightarrow> deps_valid l"
  by (fastforce simp: deps_valid_iff invariant_def deps_ok_def)

lemma propagate_fuel:
  assumes md: "\<And>b c l'. deps_valid l' \<Longrightarrow> md_rel l0 l' \<Longrightarrow> b < length (objects l') \<Longrightarrow>
       md b (\<lparr>Reason = Calls, Value = c\<rparr> # w) l' \<noteq> OutOfFuel"
    and mdr: "\<And>b w l l'. md b w l = Ok l' \<Longrightarrow> md_rel l l'"
  shows "deps_valid l \<Longrightarrow> md_rel l0 l \<Longrightarrow>
     \<forall>(b, c) \<in> set ds. b < length (objects l) \<Longrightarrow>
     propagate md ds w l \<noteq> OutOfFuel"
proof (induction ds arbitrary: l)
  case Nil
  then show ?case by simp
next
  case (Cons d ds)
  obtain chained call where d: "d = (chained, call)" by (cases d)
  from Cons.prems(3) d have ch: "chained < length (objects l)" by auto
  note m = md [OF Cons.prems(1,2) ch, of call]
  show ?case
  proof (cases "md chained (\<lparr>Reason = Calls, Value = call\<rparr> # w) l")
    case OutOfFuel
    with m show ?thesis by simp
  next
    case (Panic p l1)
    with d show ?thesis by simp
  next
    case (Ok l1)
    from mdr [OF Ok] have r1: "md_rel l l1" .
    from r1 Cons.prems(1) have v1: "deps_valid l1" by (rule deps_valid_md_rel)
    from Cons.prems(2) r1 have r01: "md_rel l0 l1" by (rule md_rel_trans)
    have "\<forall>(b, c) \<in> set ds. b < length (objects l1)"
      using Cons.prems(3) r1 by (auto simp: md_rel_def)
    from Cons.IH [OF v1 r01 this] Ok d show ?thesis by simp
  qed
qed

lemma markDirty_enough:
  "deps_valid l \<Longrightarrow> a < length (objects l) \<Longrightarrow>
     card (unsettled l (length w)) < n \<Longrightarrow> markDirty n a w l \<noteq> OutOfFuel"
proof (induction n arbitrary: a w l)
  case 0
  then show ?case by simp
next
  case (Suc n)
  show ?case
  proof (cases "settled l (length w) a")
    case True
    then show ?thesis by (simp add: markDirty_Suc')
  next
    case False
    let ?l2 = "mark a w l"
    have v2: "deps_valid ?l2" using md_rel_mark Suc.prems(1) by (rule deps_valid_md_rel)
    from unsettled_mark [OF Suc.prems(2) False] Suc.prems(3)
    have c2: "card (unsettled ?l2 (Suc (length w))) < n" by simp
    from Suc.prems(1,2)
    have ds: "\<forall>(b, c) \<in> set (dirties (deref ?l2 a)). b < length (objects ?l2)"
      by (simp add: deps_valid_iff)
    have "propagate (markDirty n) (dirties (deref ?l2 a)) w ?l2 \<noteq> OutOfFuel"
    proof (rule propagate_fuel [where ?l0.0 = ?l2, OF _ _ v2 md_rel_refl ds])
      fix b c l'
      assume v: "deps_valid l'" and r: "md_rel ?l2 l'" and b: "b < length (objects l')"
      from card_mono [OF finite_unsettled unsettled_md_rel [OF r, of "Suc (length w)"]] c2
      have "card (unsettled l' (length (\<lparr>Reason = Calls, Value = c\<rparr> # w))) < n" by simp
      from Suc.IH [OF v b this] show "markDirty n b (\<lparr>Reason = Calls, Value = c\<rparr> # w) l' \<noteq> OutOfFuel" .
    next
      fix b w l l'
      assume "markDirty n b w l = Ok l'"
      then show "md_rel l l'" by (rule markDirty_rel)
    qed
    with False show ?thesis by (simp add: markDirty_Suc')
  qed
qed

lemma markDirty_returns:
  assumes "deps_valid l" "a < length (objects l)" "length (objects l) < n"
  shows "\<exists>l'. markDirty n a w l = Ok l'"
proof -
  from card_unsettled [of l "length w"] assms(3)
  have "card (unsettled l (length w)) < n" by simp
  from markDirty_enough [OF assms(1,2) this] markDirty_no_panic [of n a w l]
  show ?thesis by (cases "markDirty n a w l") auto
qed

lemma markDirty_fuel:
  "invariant {} P l \<Longrightarrow> 0 < a \<Longrightarrow> a < length (objects l) \<Longrightarrow>
     card (unsettled l (length w)) < n \<Longrightarrow> markDirty n a w l \<noteq> OutOfFuel"
  by (intro markDirty_enough invariant_deps_valid)

lemma finite_unknowns [simp]: "finite (unknowns l)"
  by (simp add: unknowns_def)

lemma counted_length:
  assumes "counted U b l" "finite U"
  shows "length (objects l) \<le> Suc (card U)"
proof -
  from assms have "card (fst ` set (stats l)) \<le> card U"
    by (intro card_mono) (simp_all add: counted_def)
  with assms(1) show ?thesis by (simp add: counted_def)
qed

lemma budget_frame:
  assumes f: "frame l l'" and c: "counted U b l" and c': "counted U b' l'" and fin: "finite U"
  shows "budget U l' \<le> budget U l"
proof -
  let ?n = "length (objects l)" and ?n' = "length (objects l')"
  from f have le: "?n \<le> ?n'" by (simp add: frame_def)
  have "unknowns l' \<subseteq> unknowns l \<union> {?n ..< ?n'}"
  proof
    fix x assume x: "x \<in> unknowns l'"
    show "x \<in> unknowns l \<union> {?n ..< ?n'}"
    proof (cases "x < ?n")
      case True
      with f have "state (deref l x) \<noteq> stateUnknown \<longrightarrow> state (deref l' x) \<noteq> stateUnknown"
        by (simp add: frame_def)
      with x True show ?thesis by (auto simp: unknowns_def)
    next
      case False
      with x show ?thesis by (simp add: unknowns_def)
    qed
  qed
  from card_mono [OF _ this] have "card (unknowns l') \<le> card (unknowns l \<union> {?n ..< ?n'})"
    by simp
  also have "\<dots> \<le> card (unknowns l) + card {?n ..< ?n'}" by (rule card_Un_le)
  finally have u: "card (unknowns l') \<le> card (unknowns l) + (?n' - ?n)" by simp
  from counted_length [OF c' fin] have "?n' \<le> Suc (card U)" .
  with le u show ?thesis by (simp add: budget_def)
qed

lemma budget_analyzing:
  assumes a: "a < length (objects l)" and u: "state (deref l a) = stateUnknown"
  shows "Suc (budget U (put a ((deref l a)\<lparr>state := stateAnalyzing\<rparr>) l)) \<le> budget U l"
proof -
  let ?l1 = "put a ((deref l a)\<lparr>state := stateAnalyzing\<rparr>) l"
  have "unknowns ?l1 = unknowns l - {a}"
    using a by (auto simp: unknowns_def deref_put)
  moreover have "a \<in> unknowns l" using a u by (simp add: unknowns_def)
  ultimately have "Suc (card (unknowns ?l1)) = card (unknowns l)"
    using card_Suc_Diff1 [of "unknowns l" a] by simp
  then show ?thesis by (simp add: budget_def)
qed

lemma budget_good:
  "good U b al tg l \<Longrightarrow> good U b al tg l' \<Longrightarrow> frame l l' \<Longrightarrow> finite U \<Longrightarrow>
     budget U l' \<le> budget U l"
  using budget_frame [of l l' U b b] by (simp add: good_def)

lemma invariant_UNIV: "invariant S P l \<Longrightarrow> invariant S UNIV l"
  by (simp add: invariant_def)

lemma after_conj: "after r st Q \<Longrightarrow> after r st Q' \<Longrightarrow> after r st (\<lambda>l. Q l \<and> Q' l)"
  by (cases r) auto

lemma good_frame:
  "good U b al tg l \<Longrightarrow> invariant {} UNIV l' \<and> frame l l' \<Longrightarrow> counted U b l' \<Longrightarrow>
     good U b al tg l'"
  by (simp add: good_def frame_def)

lemma stat_good:
  assumes u: "U_closed pgm U" and g: "good U b al tg l" and f: "f \<in> U"
    and s: "stat pgm l f = (a, l')"
  shows "good U b al tg l' \<and> frame l l' \<and> a < length (objects l')"
proof -
  from g have i: "invariant {} UNIV l" and c: "counted U b l" by (simp_all add: good_def)
  from stat_invariant [OF i closed_empty s]
  have "invariant {} UNIV l' \<and> frame l l'" and a: "a < length (objects l')" by simp_all
  moreover from stat_counted [OF u c f] s have "counted U b l'" by simp
  ultimately show ?thesis using g by (auto intro: good_frame)
qed

lemma markDirty_good:
  assumes g: "good U b al tg l" and a: "0 < a" "a < length (objects l)"
  shows "after (markDirty n a w l) (\<lambda>l. l) (\<lambda>l'. good U b al tg l' \<and> frame l l')"
proof -
  from g have i: "invariant {} UNIV l" and c: "counted U b l" by (simp_all add: good_def)
  have "after (markDirty n a w l) (\<lambda>l. l) (\<lambda>l'. invariant {} UNIV l' \<and> md_rel l l')"
    using i a by (intro markDirty_invariant) simp_all
  from after_conj [OF this markDirty_counted [OF c, of n a w]] show ?thesis
    by (rule after_mono) (use g in \<open>auto intro: good_frame md_rel_frame\<close>)
qed

lemma decide_good:
  assumes an: "an_good U b al tg B an" and u: "U_closed pgm U" and g: "good U b al tg l"
    and a: "0 < a" "a < length (objects l)" and v: "callees v \<subseteq> U"
  shows "after (decide pgm n an a v visited l) snd (\<lambda>l'. good U b al tg l' \<and> frame l l')"
proof -
  from g have i: "invariant {} UNIV l" and c: "counted U b l"
    and al: "allowed l = al" and tg: "target l = tg" by (simp_all add: good_def)
  from an have a1: "an_ok {} UNIV al tg an" and a2: "an_counted U b an"
    by (simp_all add: an_good_def)
  have "after (decide pgm n an a v visited l) snd (\<lambda>l'. invariant {} UNIV l' \<and> frame l l')"
    using a by (intro decide_invariant(1) [OF a1 closed_empty i al tg]) simp_all
  from after_conj [OF this decide_counted(1) [OF a2 u c v, of n a visited]] show ?thesis
    by (rule after_mono) (use g in \<open>auto intro: good_frame\<close>)
qed

lemma decide_call_fuel:
  assumes an: "an_good U b al tg B an" and u: "U_closed pgm U" and n: "Suc (card U) < n"
    and g: "good U b al tg l" and a: "0 < a" "a < length (objects l)"
    and B: "budget U l \<le> B" and v: "callees (Call i t callee) \<subseteq> U"
  shows "decide pgm n an a (Call i t callee) visited l \<noteq> OutOfFuel"
proof -
  from u have fin: "finite U" by (simp add: U_closed_def)
  have md: "markDirty n a w l' \<noteq> OutOfFuel"
    if g': "good U b al tg l'" and a': "a < length (objects l')" for w l'
  proof -
    from g' have i': "invariant {} UNIV l'" and c': "counted U b l'" by (simp_all add: good_def)
    have "card (unsettled l' (length w)) \<le> length (objects l')" by (rule card_unsettled)
    also have "\<dots> \<le> Suc (card U)" using c' fin by (rule counted_length)
    also note n
    finally show ?thesis using i' a(1) a' by (intro markDirty_fuel)
  qed
  show ?thesis
  proof (cases "i \<in> visited")
    case True
    then show ?thesis by simp
  next
    case ns: False
    show ?thesis
    proof (cases callee)
      case None
      with md [OF g a(2)] ns show ?thesis by (simp split: res.splits)
    next
      case (Some f)
      with v have f: "f \<in> U" by simp
      obtain nxt l1 where st: "stat pgm l f = (nxt, l1)" by (cases "stat pgm l f")
      from stat_good [OF u g f st]
      have g1: "good U b al tg l1" and f1: "frame l l1" and n1: "nxt < length (objects l1)"
        by simp_all
      from g g1 f1 fin have "budget U l1 \<le> budget U l" by (rule budget_good)
      with B have B1: "budget U l1 \<le> B" by simp
      from an g1 n1 B1 have nf: "an nxt l1 \<noteq> OutOfFuel" by (simp add: an_good_def)
      from an g1 n1 have an1: "after (an nxt l1) (\<lambda>l. l) (\<lambda>l'. invariant {} UNIV l' \<and> frame l1 l')"
        and an2: "after (an nxt l1) (\<lambda>l. l) (counted U b)"
        by (simp_all add: an_good_def an_ok_def an_counted_def good_def)
      show ?thesis
      proof (cases "an nxt l1")
        case OutOfFuel
        with nf show ?thesis by simp
      next
        case (Panic p l2)
        with Some ns st show ?thesis by simp
      next
        case (Ok l2)
        with an1 an2 g1 have g2: "good U b al tg l2" and f2: "frame l1 l2"
          by (auto intro: good_frame)
        from f1 f2 a have a2: "a < length (objects l2)" by (auto simp: frame_def)
        from md [OF g2 a2] Ok Some ns st show ?thesis
          by (cases "state (deref l2 nxt)") (simp_all split: res.splits)
      qed
    qed
  qed
qed

lemma allowed_leaf_fuel:
  assumes "markDirty n a w l \<noteq> OutOfFuel"
  shows "(case isAllowed al t of
            None \<Rightarrow> Panic p l
          | Some True \<Rightarrow> Ok (visited', l)
          | Some False \<Rightarrow>
              (case markDirty n a w l of Ok l1 \<Rightarrow> Ok (visited', l1)
               | Panic p l1 \<Rightarrow> Panic p l1 | OutOfFuel \<Rightarrow> OutOfFuel)) \<noteq> OutOfFuel"
  using assms by (simp split: option.splits bool.splits res.splits)

lemma leaf_fuel:
  assumes u: "U_closed pgm U" and n: "Suc (card U) < n"
    and g: "good U b al tg l" and a: "0 < a" "a < length (objects l)"
  shows "markDirty n a w l \<noteq> OutOfFuel"
proof -
  from u have fin: "finite U" by (simp add: U_closed_def)
  from g have i: "invariant {} UNIV l" and c: "counted U b l" by (simp_all add: good_def)
  have "card (unsettled l (length w)) \<le> length (objects l)" by (rule card_unsettled)
  also have "\<dots> \<le> Suc (card U)" using c fin by (rule counted_length)
  also note n
  finally show ?thesis using i a by (intro markDirty_fuel)
qed

lemma decide_fuel:
  shows "an_good U b al tg B an \<Longrightarrow> U_closed pgm U \<Longrightarrow> Suc (card U) < n \<Longrightarrow>
      good U b al tg l \<Longrightarrow> 0 < a \<Longrightarrow> a < length (objects l) \<Longrightarrow> budget U l \<le> B \<Longrightarrow>
      callees v \<subseteq> U \<Longrightarrow> decide pgm n an a v visited l \<noteq> OutOfFuel"
    and "an_good U b al tg B an \<Longrightarrow> U_closed pgm U \<Longrightarrow> Suc (card U) < n \<Longrightarrow>
      good U b al tg l \<Longrightarrow> 0 < a \<Longrightarrow> a < length (objects l) \<Longrightarrow> budget U l \<le> B \<Longrightarrow>
      (\<forall>v \<in> set vs. callees v \<subseteq> U) \<Longrightarrow> decide_edges pgm n an a vs visited l \<noteq> OutOfFuel"
proof (induction pgm n an a v visited l and pgm n an a vs visited l rule: decide_decide_edges.induct)
  case (1 pgm n an a i t callee visited l)
  then show ?case by (intro decide_call_fuel)
next
  case (2 pgm n an a i t isNil visited l)
  from leaf_fuel [OF "2.prems"(2-6)] show ?case
    by (simp add: allowed_leaf_fuel)
next
  case (3 pgm n an a i t tuple visited l)
  then show ?case by (cases "i \<in> visited") auto
next
  case (4 pgm n an a i t x visited l)
  then show ?case by (cases "i \<in> visited") auto
next
  case (5 pgm n an a i t edges visited l)
  then show ?case by (cases "i \<in> visited") auto
next
  case (6 pgm n an a i t asserted visited l)
  from leaf_fuel [OF "6.prems"(2-6)] show ?case
    by (simp add: allowed_leaf_fuel)
next
  case (7 pgm n an a i t op x visited l)
  then show ?case by (cases "i \<in> visited"; cases "op = MUL") auto
next
  case (8 pgm n an a i t visited l)
  from leaf_fuel [OF "8.prems"(2-6)] show ?case
    by (simp add: allowed_leaf_fuel)
next
  case (9 pgm n an a visited l)
  then show ?case by simp
next
  case (10 pgm n an a edge edges visited l)
  from "10.prems" have e: "callees edge \<subseteq> U" and es: "\<forall>v \<in> set edges. callees v \<subseteq> U" by auto
  from "10.prems"(2) have fin: "finite U" by (simp add: U_closed_def)
  note d = "10.IH"(1) [OF "10.prems"(1-7) e]
  note dg = decide_good [OF "10.prems"(1,2,4,5,6) e, of n visited]
  show ?case
  proof (cases "decide pgm n an a edge visited l")
    case OutOfFuel
    with d show ?thesis by simp
  next
    case (Panic p l1)
    then show ?thesis by simp
  next
    case (Ok x)
    obtain visited1 l1 where x: "x = (visited1, l1)" by (cases x)
    with Ok dg have g1: "good U b al tg l1" and f1: "frame l l1" by auto
    from f1 "10.prems"(6) have a1: "a < length (objects l1)" by (auto simp: frame_def)
    from "10.prems"(4) g1 f1 fin have "budget U l1 \<le> budget U l" by (rule budget_good)
    with "10.prems"(7) have B1: "budget U l1 \<le> B" by simp
    from "10.IH"(2) [OF Ok x [symmetric] "10.prems"(1-3) g1 "10.prems"(5) a1 B1 es] Ok x
    show ?thesis by simp
  qed
qed

lemma analyze_good:
  assumes u: "U_closed pgm U" and g: "good U b al tg l" and a: "a < length (objects l)"
  shows "after (analyze pgm n a l) (\<lambda>l. l) (\<lambda>l'. good U b al tg l' \<and> frame l l')"
proof -
  from g have i: "invariant {} UNIV l" and c: "counted U b l"
    and al: "allowed l = al" and tg: "target l = tg" by (simp_all add: good_def)
  from after_conj [OF analyze_invariant [OF closed_empty i al tg a, of pgm n]
    analyze_counted [OF u c a, of n]]
  show ?thesis by (rule after_mono) (use g in \<open>auto intro: good_frame\<close>)
qed

lemma analyze_returns_fuel:
  "an_good U b al tg B an \<Longrightarrow> U_closed pgm U \<Longrightarrow> Suc (card U) < n \<Longrightarrow>
     good U b al tg l \<Longrightarrow> 0 < a \<Longrightarrow> a < length (objects l) \<Longrightarrow> budget U l \<le> B \<Longrightarrow>
     (\<forall>(ret, idx) \<in> set pairs. \<forall>v \<in> set ret. callees v \<subseteq> U) \<Longrightarrow>
     analyze_returns (decide pgm n an a) a pairs visited l \<noteq> OutOfFuel"
proof (induction pairs arbitrary: visited l)
  case Nil
  then show ?case by simp
next
  case (Cons pr pairs)
  obtain ret idx where pr: "pr = (ret, idx)" by (cases pr)
  from Cons.prems(2) have fin: "finite U" by (simp add: U_closed_def)
  show ?case
  proof (cases "idx < length ret")
    case False
    with pr show ?thesis by simp
  next
    case True
    with Cons.prems(8) pr have v: "callees (ret ! idx) \<subseteq> U" by auto
    note d = decide_fuel(1) [OF Cons.prems(1-7) v, of visited]
    note dg = decide_good [OF Cons.prems(1,2,4,5,6) v, of n visited]
    show ?thesis
    proof (cases "decide pgm n an a (ret ! idx) visited l")
      case OutOfFuel
      with d show ?thesis by simp
    next
      case (Panic p l1)
      with pr True show ?thesis by simp
    next
      case (Ok x)
      obtain visited1 l1 where x: "x = (visited1, l1)" by (cases x)
      with Ok dg have g1: "good U b al tg l1" and f1: "frame l l1" by auto
      from f1 Cons.prems(6) have a1: "a < length (objects l1)" by (auto simp: frame_def)
      from Cons.prems(4) g1 f1 fin have "budget U l1 \<le> budget U l" by (rule budget_good)
      with Cons.prems(7) have B1: "budget U l1 \<le> B" by simp
      from Cons.prems(8) have ps: "\<forall>(ret, idx) \<in> set pairs. \<forall>v \<in> set ret. callees v \<subseteq> U" by simp
      from Cons.IH [OF Cons.prems(1-3) g1 Cons.prems(5) a1 B1 ps, of visited1] Ok x pr True
      show ?thesis by simp
    qed
  qed
qed

lemma analyze_fuel:
  assumes u: "U_closed pgm U"
  shows "good U b al tg l \<Longrightarrow> a < length (objects l) \<Longrightarrow> Suc (card U) + budget U l < n \<Longrightarrow>
     analyze pgm n a l \<noteq> OutOfFuel"
proof (induction n arbitrary: l a)
  case 0
  then show ?case by simp
next
  case (Suc n)
  from u have fin: "finite U" by (simp add: U_closed_def)
  show ?case
  proof (cases "state (deref l a) \<noteq> stateUnknown")
    case True
    then show ?thesis by simp
  next
    case False
    then have un: "state (deref l a) = stateUnknown" by simp
    from Suc.prems(1) have i: "invariant {} UNIV l" and c: "counted U b l"
      by (simp_all add: good_def)
    from i have c0: "state (deref l 0) = stateClean" by (simp add: invariant_def clean_def)
    with un have a0: "0 < a" by (cases a) auto
    let ?s = "(deref l a)\<lparr>state := stateAnalyzing\<rparr>"
    let ?l1 = "put a ?s l"
    let ?B = "budget U ?l1"
    from budget_analyzing [OF Suc.prems(2) un, of U] have B: "Suc ?B \<le> budget U l" .
    with Suc.prems(3) have n: "Suc (card U) < n" and nB: "Suc (card U) + ?B < n" by simp_all
    have g1: "good U b al tg ?l1"
    proof -
      from i Suc.prems(2) have cell: "cell_ok (allowed l) {} a (deref l a)"
        and d: "deps_ok {} l (deref l a)" by (auto simp: invariant_def)
      have "invariant {} UNIV ?l1"
      proof (rule invariant_put [OF i a0 Suc.prems(2)])
        show "cell_ok (allowed l) {} a ?s" using cell by (simp add: cell_ok_def)
        show "deps_ok {} l ?s" using d by (simp add: deps_ok_def)
        show "permitted (a, deref l a, ?s)" using un by (rule permitted_unknown)
      qed simp_all
      moreover have "counted U b ?l1" using c by (rule counted_put) simp
      ultimately show ?thesis using Suc.prems(1) by (simp add: good_def)
    qed
    have an: "an_good U b al tg ?B (analyze pgm n)"
      unfolding an_good_def
    proof (intro conjI allI impI)
      show "an_ok {} UNIV al tg (analyze pgm n)"
        unfolding an_ok_def
      proof (intro allI impI)
        fix x l' assume "invariant {} UNIV l'" "allowed l' = al" "target l' = tg"
          "x < length (objects l')"
        from analyze_invariant [OF closed_empty this, of pgm n]
        show "after (analyze pgm n x l') (\<lambda>l. l) (\<lambda>l''. invariant {} UNIV l'' \<and> frame l' l'')"
          by (rule after_mono) simp
      qed
      show "an_counted U b (analyze pgm n)"
        using analyze_counted [OF u] by (simp add: an_counted_def)
    next
      fix x l' assume g': "good U b al tg l'" and x: "x < length (objects l')"
        and le: "budget U l' \<le> ?B"
      from le nB have "Suc (card U) + budget U l' < n" by simp
      from Suc.IH [OF g' x this] show "analyze pgm n x l' \<noteq> OutOfFuel" .
    qed
    let ?pairs = "concat (map (\<lambda>ret. map (\<lambda>idx. (ret, idx)) (targetIndexes (deref ?l1 a)))
                   (returns (deref ?l1 a)))"
    have "returns (deref ?l1 a) = returns (deref l a)" by (simp add: deref_put)
    moreover from c Suc.prems(2) have "rets_in U (returns (deref l a))" by (simp add: counted_def)
    ultimately have pr: "\<forall>(ret, idx) \<in> set ?pairs. \<forall>v \<in> set ret. callees v \<subseteq> U"
      by (auto simp: rets_in_def)
    have a1: "a < length (objects ?l1)" using Suc.prems(2) by simp
    from analyze_returns_fuel [OF an u n g1 a0 a1 le_refl pr, of "{}"] un
    show ?thesis by (simp add: Let_def split: res.splits)
  qed
qed

lemma analyze_all_fuel:
  assumes u: "U_closed pgm U"
  shows "good U b al tg l \<Longrightarrow> \<forall>a \<in> set as. a < length (objects l) \<Longrightarrow>
     Suc (card U) + budget U l < n \<Longrightarrow>
     analyze_all (analyze pgm n) as l \<noteq> OutOfFuel
     \<and> (\<forall>l'. analyze_all (analyze pgm n) as l = Ok l' \<longrightarrow>
           good U b al tg l' \<and> frame l l' \<and> budget U l' \<le> budget U l)"
proof (induction as arbitrary: l)
  case Nil
  then show ?case by simp
next
  case (Cons a as)
  from u have fin: "finite U" by (simp add: U_closed_def)
  from Cons.prems(2) have a: "a < length (objects l)" by simp
  note nf = analyze_fuel [OF u Cons.prems(1) a Cons.prems(3)]
  note ag = analyze_good [OF u Cons.prems(1) a, of n]
  show ?case
  proof (cases "analyze pgm n a l")
    case OutOfFuel
    with nf show ?thesis by simp
  next
    case (Panic p l1)
    then show ?thesis by simp
  next
    case (Ok l1)
    with ag have g1: "good U b al tg l1" and f1: "frame l l1" by auto
    from Cons.prems(1) g1 f1 fin have b1: "budget U l1 \<le> budget U l" by (rule budget_good)
    with Cons.prems(3) have n1: "Suc (card U) + budget U l1 < n" by simp
    from f1 Cons.prems(2) have as1: "\<forall>a \<in> set as. a < length (objects l1)"
      by (auto simp: frame_def)
    from Cons.IH [OF g1 as1 n1] Ok f1 b1 show ?thesis
      by (auto intro: frame_trans [of l l1])
  qed
qed

lemma work_loop_fuel:
  assumes u: "U_closed pgm U"
  shows "good U 0 al tg l \<Longrightarrow> Suc (card U) + budget U l + rounds U l < n \<Longrightarrow>
     work_loop pgm n l \<noteq> OutOfFuel"
proof (induction n arbitrary: l)
  case 0
  then show ?case by simp
next
  case (Suc n)
  from u have fin: "finite U" by (simp add: U_closed_def)
  show ?case
  proof (cases "work l = []")
    case True
    then show ?thesis by simp
  next
    case False
    let ?l0 = "l\<lparr>work := []\<rparr>"
    let ?b = "length (objects l)"
    from Suc.prems(1) have i: "invariant {} UNIV l" and c: "counted U 0 l"
      and al: "allowed l = al" "target l = tg" by (simp_all add: good_def)
    have d0: "deref ?l0 x = deref l x" for x by (simp add: deref_def)
    have "deps_ok {} ?l0 x = deps_ok {} l x" for x by (simp add: deps_ok_def d0)
    with i have i0: "invariant {} UNIV ?l0" unfolding invariant_def by (simp add: d0)
    from c have c0: "counted U ?b ?l0" by (simp add: counted_def d0)
    from i0 c0 al have g0: "good U ?b al tg ?l0" by (simp add: good_def)
    from i have w: "\<forall>a \<in> set (work l). a < length (objects ?l0)" by (simp add: invariant_def)
    have b0: "budget U ?l0 = budget U l" by (simp add: budget_def unknowns_def d0)
    from Suc.prems(2) b0 have n0: "Suc (card U) + budget U ?l0 < Suc n" by simp
    note aa = analyze_all_fuel [OF u g0 w n0]
    show ?thesis
    proof (cases "analyze_all (analyze pgm (Suc n)) (work l) ?l0")
      case OutOfFuel
      with aa show ?thesis by simp
    next
      case (Panic p l1)
      with False show ?thesis by simp
    next
      case (Ok l1)
      with aa have g1: "good U ?b al tg l1" and f1: "frame ?l0 l1"
        and b1: "budget U l1 \<le> budget U ?l0" by auto
      from g1 have i1: "invariant {} UNIV l1" and c1: "counted U ?b l1" by (simp_all add: good_def)
      from c1 have c1': "counted U 0 l1" by (simp add: counted_def)
      with g1 have g1': "good U 0 al tg l1" by (simp add: good_def)
      from f1 have le: "?b \<le> length (objects l1)" by (simp add: frame_def)
      from counted_length [OF c1 fin] have le1: "length (objects l1) \<le> Suc (card U)" .
      have "Suc (rounds U l1) \<le> rounds U l"
      proof (cases "work l1 = []")
        case True
        with False le show ?thesis by (simp add: rounds_def)
      next
        case w1: False
        then obtain a where a: "a \<in> set (work l1)" by (cases "work l1") auto
        with c1 have "?b \<le> a" by (simp add: counted_def)
        moreover from i1 a have "a < length (objects l1)" by (simp add: invariant_def)
        ultimately have "?b < length (objects l1)" by simp
        with False w1 le1 show ?thesis by (simp add: rounds_def)
      qed
      with b1 b0 Suc.prems(2) have "Suc (card U) + budget U l1 + rounds U l1 < n" by simp
      from Suc.IH [OF g1' this] Ok False show ?thesis by simp
    qed
  qed
qed

lemma finite_callees [simp]: "finite (callees v)"
  by (induction v) (auto split: option.splits)

lemma finite_member_functions [simp]: "finite (member_functions m)"
proof (cases m)
  case (MType vs ps)
  have "{f. Some f \<in> set vs \<union> set ps} \<subseteq> the ` (set vs \<union> set ps)" by force
  then show ?thesis using MType by (auto intro: finite_subset)
qed simp_all

lemma U_closed_program_functions: "U_closed pgm (program_functions pgm sp)"
  unfolding U_closed_def
proof (intro conjI ballI)
  show "finite (program_functions pgm sp)" by (simp add: program_functions_def)
next
  fix f assume "f \<in> program_functions pgm sp"
  show "rets_in (program_functions pgm sp) (return_instrs (f_blocks (function_at pgm f)))"
  proof (cases "f < length pgm")
    case True
    then have "pgm ! f \<in> set pgm" by simp
    then show ?thesis using True
      by (fastforce simp: rets_in_def program_functions_def function_at_def)
  next
    case False
    then show ?thesis by (simp add: function_at_def external_def return_instrs_def rets_in_def)
  qed
qed

lemma stat_methods_good:
  "U_closed pgm U \<Longrightarrow> good U b al tg l \<Longrightarrow> {f. Some f \<in> set ms} \<subseteq> U \<Longrightarrow>
     good U b al tg (stat_methods pgm ms l)"
proof (induction pgm ms l rule: stat_methods.induct)
  case (1 pgm l)
  then show ?case by simp
next
  case (2 pgm ms l)
  then show ?case by simp
next
  case (3 pgm f ms l)
  obtain a l1 where s: "stat pgm l f = (a, l1)" by (cases "stat pgm l f")
  from "3.prems"(3) have f: "f \<in> U" and ms: "{f. Some f \<in> set ms} \<subseteq> U" by auto
  from stat_good [OF "3.prems"(1,2) f s] have g1: "good U b al tg l1" by simp
  from s have l1: "snd (stat pgm l f) = l1" by simp
  from "3.IH" [unfolded l1, OF "3.prems"(1) g1 ms] s show ?case by simp
qed

lemma stat_members_good:
  "U_closed pgm U \<Longrightarrow> good U b al tg l \<Longrightarrow> (\<Union>m \<in> set ms. member_functions m) \<subseteq> U \<Longrightarrow>
     good U b al tg (stat_members pgm ms l)"
proof (induction pgm ms l rule: stat_members.induct)
  case (1 pgm l)
  then show ?case by simp
next
  case (2 pgm f ms l)
  obtain a l1 where s: "stat pgm l f = (a, l1)" by (cases "stat pgm l f")
  from "2.prems"(3) have f: "f \<in> U" and ms: "(\<Union>m \<in> set ms. member_functions m) \<subseteq> U" by auto
  from stat_good [OF "2.prems"(1,2) f s] have g1: "good U b al tg l1" by simp
  from s have l1: "snd (stat pgm l f) = l1" by simp
  from "2.IH" [unfolded l1, OF "2.prems"(1) g1 ms] s show ?case by simp
next
  case (3 pgm vs ps ms l)
  from "3.prems"(3) have vs: "{f. Some f \<in> set vs} \<subseteq> U" and ps: "{f. Some f \<in> set ps} \<subseteq> U"
    and ms: "(\<Union>m \<in> set ms. member_functions m) \<subseteq> U" by auto
  from stat_methods_good [OF "3.prems"(1,2) vs]
  have "good U b al tg (stat_methods pgm vs l)" .
  from stat_methods_good [OF "3.prems"(1) this ps]
  have "good U b al tg (stat_methods pgm ps (stat_methods pgm vs l))" .
  from "3.IH" [OF "3.prems"(1) this ms] show ?case by simp
next
  case (4 pgm ms l)
  then show ?case by simp
qed

lemma stat_packages_good:
  "U_closed pgm U \<Longrightarrow> good U b al tg l \<Longrightarrow>
     (\<Union>pkg \<in> set pkgs. \<Union>m \<in> set (p_members pkg). member_functions m) \<subseteq> U \<Longrightarrow>
     good U b al tg (stat_packages pgm pkgs l)"
proof (induction pgm pkgs l rule: stat_packages.induct)
  case (1 pgm l)
  then show ?case by simp
next
  case (2 pgm pkg pkgs l)
  from "2.prems"(3) have m: "(\<Union>m \<in> set (p_members pkg). member_functions m) \<subseteq> U"
    and ps: "(\<Union>pkg \<in> set pkgs. \<Union>m \<in> set (p_members pkg). member_functions m) \<subseteq> U" by auto
  from stat_members_good [OF "2.prems"(1,2) m]
  have "good U b al tg (stat_members pgm (p_members pkg) l)" .
  from "2.IH" [OF "2.prems"(1) this ps] show ?case by simp
qed

lemma good_initial:
  "good U 0 al tg \<lparr>allowed = al, stats = [], target = tg, work = [], objects = [clean], history = []\<rparr>"
proof -
  have "invariant {} UNIV \<lparr>allowed = al, stats = [], target = tg, work = [], objects = [clean], history = []\<rparr>"
    using invariant_initial by (rule invariant_UNIV)
  then show ?thesis
    by (simp add: good_def counted_def deref_def clean_def rets_in_def)
qed

lemma Execute_cases:
  obtains (failed) err where "\<forall>fuel. Execute_retlint fuel T A load u ap sp pgm = Ok (Inl err)"
  | (early) p l where "\<forall>fuel. Execute_retlint fuel T A load u ap sp pgm = Panic p l" "history l = []"
  | (run) tg al where
      "\<forall>fuel. Execute_retlint fuel T A load u ap sp pgm = run_analysis fuel tg al sp pgm"
proof (cases "T = [] \<or> load \<noteq> None")
  case True
  then have "\<exists>err. \<forall>fuel. Execute_retlint fuel T A load u ap sp pgm = Ok (Inl err)"
    by (cases "T = []") (auto simp: Execute_retlint_def)
  then show ?thesis using failed by blast
next
  case False
  then have T: "T \<noteq> []" "load = None" by auto
  show ?thesis
  proof (cases "resolve u ap T")
    case (Inl p)
    let ?l = "\<lparr>allowed = [], stats = [], target = [], work = [], objects = [clean], history = []\<rparr>"
    from Inl T have "\<forall>fuel. Execute_retlint fuel T A load u ap sp pgm = Panic p ?l"
      by (simp add: Execute_retlint_def)
    moreover have "history ?l = []" by simp
    ultimately show ?thesis by (rule early)
  next
    case (Inr x)
    show ?thesis
    proof (cases x)
      case (Inl err)
      with Inr T show ?thesis by (intro failed) (simp add: Execute_retlint_def)
    next
      case tg: (Inr tg)
      show ?thesis
      proof (cases "resolve_allowed u ap A []")
        case (Inl p)
        let ?l = "\<lparr>allowed = [], stats = [], target = tg, work = [], objects = [clean], history = []\<rparr>"
        from Inl Inr tg T have "\<forall>fuel. Execute_retlint fuel T A load u ap sp pgm = Panic p ?l"
          by (simp add: Execute_retlint_def)
        moreover have "history ?l = []" by simp
        ultimately show ?thesis by (rule early)
      next
        case r: (Inr y)
        show ?thesis
        proof (cases y)
          case (Inl err)
          with Inr tg r T show ?thesis by (intro failed) (simp add: Execute_retlint_def)
        next
          case al: (Inr al)
          with Inr tg r T
          have "\<forall>fuel. Execute_retlint fuel T A load u ap sp pgm = run_analysis fuel tg al sp pgm"
            by (simp add: Execute_retlint_def run_analysis_def)
          then show ?thesis by (rule run)
        qed
      qed
    qed
  qed
qed

lemma run_analysis_terminates: "\<exists>N. \<forall>fuel \<ge> N. run_analysis fuel tg al sp pgm \<noteq> OutOfFuel"
proof -
  let ?U = "program_functions pgm sp"
  let ?l0 = "stat_packages pgm sp
     \<lparr>allowed = al, stats = [], target = tg, work = [], objects = [clean], history = []\<rparr>"
  let ?N = "Suc (Suc (card ?U) + budget ?U ?l0 + rounds ?U ?l0)"
  have u: "U_closed pgm ?U" by (rule U_closed_program_functions)
  have g0: "good ?U 0 al tg ?l0"
    by (rule stat_packages_good [OF u good_initial]) (simp add: program_functions_def)
  have "run_analysis fuel tg al sp pgm \<noteq> OutOfFuel" if "?N \<le> fuel" for fuel
  proof -
    from that have "Suc (card ?U) + budget ?U ?l0 + rounds ?U ?l0 < fuel" by simp
    from work_loop_fuel [OF u g0 this] show ?thesis
      by (simp add: run_analysis_def Let_def split: res.splits)
  qed
  then show ?thesis by blast
qed

lemma Execute_terminates:
  "\<exists>N. \<forall>fuel \<ge> N. Execute_retlint fuel T A load u ap sp pgm \<noteq> OutOfFuel"
proof (cases T A load u ap sp pgm rule: Execute_cases)
  case (failed err)
  then show ?thesis by simp
next
  case (early p l)
  then show ?thesis by simp
next
  case (run tg al)
  with run_analysis_terminates [of tg al sp pgm] show ?thesis by simp
qed

lemma run_analysis_monotone: "monotone_run (run_analysis fuel tg al sp pgm)"
proof -
  let ?l0 = "stat_packages pgm sp
     \<lparr>allowed = al, stats = [], target = tg, work = [], objects = [clean], history = []\<rparr>"
  note ri = run_invariant [where pgm = pgm and tg = tg and al = al and sp = sp and fuel = fuel,
      OF closed_empty refl]
  show ?thesis
  proof (cases "work_loop pgm fuel ?l0")
    case OutOfFuel
    then show ?thesis by (simp add: monotone_run_def run_analysis_def)
  next
    case (Panic p l1)
    with ri(1) have "\<forall>e \<in> set (history l1). permitted e"
      by (auto simp: post_def invariant_def)
    with Panic show ?thesis by (simp add: monotone_run_def run_analysis_def list_all_iff)
  next
    case (Ok l1)
    with ri have i1: "invariant {} {} l1" and w1: "work l1 = []" by (auto simp: post_def)
    let ?l2 = "finish (map snd (stats l1)) l1"
    from i1 have h1: "\<forall>e \<in> set (history l1). permitted e" by (simp add: invariant_def)
    note fp = finish_props [OF h1, of "map snd (stats l1)"]
    have "state (deref ?l2 a) = stateClean \<or> state (deref ?l2 a) = stateDirty"
      if m: "map_of (stats ?l2) f = Some a" for f a
    proof -
      from m fp have m1: "map_of (stats l1) f = Some a" by simp
      with i1 w1 have a: "a < length (objects l1)" "state (deref l1 a) \<noteq> stateUnknown"
        by (auto simp: invariant_def)
      from m1 have "a \<in> set (map snd (stats l1))" by (force dest: map_of_SomeD)
      with fp a show ?thesis by (cases "state (deref l1 a)") auto
    qed
    then have "settled_stats ?l2"
      by (auto simp: settled_stats_def list_all_iff split: option.splits)
    with fp Ok show ?thesis
      by (simp add: monotone_run_def run_analysis_def list_all_iff Let_def)
  qed
qed

lemma run_analysis_clean:
  assumes cl: "closed pgm tg al S" and f: "f \<in> S"
  shows "ends_clean (run_analysis fuel tg al sp pgm) f"
proof -
  let ?l0 = "stat_packages pgm sp
     \<lparr>allowed = al, stats = [], target = tg, work = [], objects = [clean], history = []\<rparr>"
  note ri = run_invariant [where sp = sp and fuel = fuel, OF cl refl]
  show ?thesis
  proof (cases "work_loop pgm fuel ?l0")
    case OutOfFuel
    then show ?thesis by (simp add: ends_clean_def run_analysis_def)
  next
    case (Panic p l1)
    then show ?thesis by (simp add: ends_clean_def run_analysis_def)
  next
    case (Ok l1)
    with ri have i1: "invariant S {} l1" and w1: "work l1 = []" by (auto simp: post_def)
    let ?l2 = "finish (map snd (stats l1)) l1"
    from i1 have h1: "\<forall>e \<in> set (history l1). permitted e" by (simp add: invariant_def)
    note fp = finish_props [OF h1, of "map snd (stats l1)"]
    have "state (deref ?l2 a) = stateClean" if m: "map_of (stats ?l2) f = Some a" for a
    proof -
      from m fp have m1: "map_of (stats l1) f = Some a" by simp
      with i1 w1 have a1: "a < length (objects l1)" "state (deref l1 a) \<noteq> stateUnknown"
        "a = 0 \<or> fn (deref l1 a) = f" and z: "deref l1 0 = clean"
        by (auto simp: invariant_def)
      from i1 a1(1) have "cell_ok (allowed l1) S a (deref l1 a)" by (simp add: invariant_def)
      with a1(3) f z have nd: "state (deref l1 a) \<noteq> stateDirty"
        by (auto simp: cell_ok_def clean_def)
      from m1 have "a \<in> set (map snd (stats l1))" by (force dest: map_of_SomeD)
      with fp a1 nd show ?thesis by (cases "state (deref l1 a)") auto
    qed
    with Ok show ?thesis
      by (simp add: ends_clean_def run_analysis_def Let_def split: option.splits)
  qed
qed

lemma Execute_resolved:
  assumes "resolve u ap T = Inr (Inr tg)" and "resolve_allowed u ap A [] = Inr (Inr al)"
  shows "Execute_retlint fuel T A load u ap sp pgm =
     (if T = [] then Ok (Inl NoTargetName)
      else case load of Some err \<Rightarrow> Ok (Inl (LoadFailed err))
           | None \<Rightarrow> run_analysis fuel tg al sp pgm)"
  using assms by (simp add: Execute_retlint_def run_analysis_def split: option.splits)









text \<open>
  Claim C3 fails in the code.  The case \<^verbatim>\<open>*ssa.UnOp\<close> of \<^verbatim>\<open>decide\<close> does nothing
  for an operator other than \<^verbatim>\<open>token.MUL\<close>: the value is put in \<^verbatim>\<open>seen\<close> and the
  store is left as it is, whatever the type of the value.  So \<open>Receives\<close>, which returns
  a value received from a channel, of the type \<^verbatim>\<open>error\<close> that is not allowed, ends
  clean.
\<close>

theorem decide_skips_other_UnOp:
  "decide pgm n an a (UnOp i t ARROW x) {} l = Ok ({i}, l)
   \<and> decide pgm n an a (UnOp i t NOT x) {} l = Ok ({i}, l)
   \<and> decide pgm n an a (UnOp i t SUB x) {} l = Ok ({i}, l)
   \<and> decide pgm n an a (UnOp i t XOR x) {} l = Ok ({i}, l)
   \<and> isAllowed [''testdata.GoodPtrError'', ''testdata.GoodValError'']
        (Type (UnOp 1 error_t ARROW (OtherValue 2 (Basic ''chan error'')))) = Some False
   \<and> final_state (Execute_retlint 10 ''error'' ex_allowed None ex_universe
        [ex_testdata [MFunction 0]] [ex_testdata [MFunction 0]] [ex_Receives]) 0 = Some stateClean"
proof -
  have "isAllowed [''testdata.GoodPtrError'', ''testdata.GoodValError'']
        (Type (UnOp 1 error_t ARROW (OtherValue 2 (Basic ''chan error'')))) = Some False
   \<and> final_state (Execute_retlint 10 ''error'' ex_allowed None ex_universe
        [ex_testdata [MFunction 0]] [ex_testdata [MFunction 0]] [ex_Receives]) 0 = Some stateClean"
    by code_simp
  then show ?thesis by simp
qed

text \<open>
  Claim C8 fails in the code for a simple name.  \<^verbatim>\<open>resolve\<close> calls
  \<^verbatim>\<open>tgtObject.Type()\<close> a second time outside the test for nil, so a simple name that
  the universe scope does not have makes it panic with a nil pointer dereference, and
  \<^verbatim>\<open>Execute\<close> with it, for the target name and for an allowed name alike.
\<close>

theorem resolve_unknown_simple_name:
  "resolve ex_universe allPackages ''Error''
     = Inl (PanicError ''runtime error: invalid memory address or nil pointer dereference'')
   \<and> panic_of (Execute_retlint fuel ''Error'' AllowedNames None ex_universe allPackages sPkgs pgm)
     = Some (PanicError ''runtime error: invalid memory address or nil pointer dereference'')
   \<and> panic_of (Execute_retlint fuel ''error'' [''GoodPtrError''] None ex_universe allPackages sPkgs pgm)
     = Some (PanicError ''runtime error: invalid memory address or nil pointer dereference'')"
  by (simp add: Execute_retlint_def resolve_def path_Split_def ex_universe_def panic_of_def)

text \<open>
  Claim C10 fails in the code.  \<^verbatim>\<open>extract\<close> picks the results at the target indexes;
  \<^verbatim>\<open>decide\<close> then goes from an \<^verbatim>\<open>Extract\<close> to its tuple, and a tuple that is no
  call or type assertion reaches \<^verbatim>\<open>isAllowed\<close> with its tuple type.  \<open>Ranges\<close> returns
  the value of a range loop over a map, and the run panics.
\<close>

theorem isAllowed_tuple_reached:
  "return_instrs (f_blocks ex_Ranges)
     = [[Extract 1 error_t (OtherValue 2 (Tuple [Basic ''bool'', Basic ''string'', error_t]))],
        [Const 3 error_t True]]
   \<and> target_indexes ''error'' (f_results ex_Ranges) = [0]
   \<and> panic_of (Execute_retlint 10 ''error'' ex_allowed None ex_universe
        [ex_testdata [MFunction 0]] [ex_testdata [MFunction 0]] [ex_Ranges])
     = Some (PanicError ''Ranges: should not see a tuple type; unpack in extract()'')"
  by code_simp

end
